theory Spec2Isabelle
  imports Main "HOL-Library.Word"
begin

section \<open>The expiring map of \<^verbatim>\<open>expire_map.h\<close>\<close>

text \<open>
  The class \<^verbatim>\<open>expire_map<K, V>\<close> keeps three structures behind one mutex:
  \<^item> \<^verbatim>\<open>lookup_map_\<close>, an \<^verbatim>\<open>unordered_map<K, map_data>\<close>: the entry table;
  \<^item> \<^verbatim>\<open>append_timeouts_\<close>, a \<^verbatim>\<open>vector<timeout_data>\<close>: the pending log;
  \<^item> \<^verbatim>\<open>sorted_timeouts_\<close>, a \<^verbatim>\<open>map<uint64_t, unordered_set<K>>\<close>: the deadline index.

  Every public operation and every iteration of the reclaimer's loop runs with the mutex
  held, so each is one atomic transition of the state below. The clock
  (\<^verbatim>\<open>get_time_ms\<close>) is read at most once per transition; its reading is an argument
  \<open>now\<close> of the transition. Times are \<^verbatim>\<open>uint64_t\<close>: 64-bit words, on which \<open>+\<close>
  wraps around and \<open>\<le>\<close> compares unsigned.

  The trailing underscore of the source's member names is dropped, and the fields of the two
  structs carry a prefix (\<open>m_\<close> for \<^verbatim>\<open>map_data\<close>, \<open>t_\<close> for \<^verbatim>\<open>timeout_data\<close>), since both
  have a member \<^verbatim>\<open>timeout_\<close>.
\<close>

type_synonym time_ms = "64 word"

text \<open>
  A failed \<^verbatim>\<open>assert\<close> aborts the process: the only error of the model, which is of a
  build with assertions compiled in (the macro \<^verbatim>\<open>DEBUG\<close> of the header only guards
  \<^verbatim>\<open>printf\<close> calls).
\<close>

datatype error = Assertion_Failed

record 'v map_data =
  m_value :: 'v
  m_timeout :: time_ms

record 'k timeout_data =
  t_key :: 'k
  t_timeout :: time_ms
  t_overwrite :: bool

subsection \<open>The deadline index: an ordered map as a list sorted by deadline\<close>

text \<open>
  \<^verbatim>\<open>std::map<uint64_t, unordered_set<K>>\<close> is a list of buckets in strictly ascending
  order of deadline, so that \<^verbatim>\<open>begin()\<close> is the head and iteration is the list order.
\<close>

type_synonym 'k index = "(time_ms \<times> 'k set) list"

text \<open>\<^verbatim>\<open>sorted_timeouts_.find(t)\<close>: the bucket of deadline \<open>t\<close>, \<open>None\<close> for \<^verbatim>\<open>end()\<close>.\<close>

definition find_bucket :: "'k index \<Rightarrow> time_ms \<Rightarrow> 'k set option" where
  "find_bucket idx t = map_of idx t"

text \<open>\<^verbatim>\<open>sorted_timeouts_.insert(pair(t, ks))\<close>: in order; an existing bucket is kept.\<close>

fun insert_bucket :: "time_ms \<Rightarrow> 'k set \<Rightarrow> 'k index \<Rightarrow> 'k index" where
  "insert_bucket t ks [] = [(t, ks)]"
| "insert_bucket t ks ((t', ks') # rest) =
     (if t < t' then (t, ks) # (t', ks') # rest
      else if t = t' then (t', ks') # rest
      else (t', ks') # insert_bucket t ks rest)"

text \<open>Writing through the iterator (\<^verbatim>\<open>it->second.insert\<close>, \<^verbatim>\<open>it->second.erase\<close>).\<close>

fun set_bucket :: "time_ms \<Rightarrow> 'k set \<Rightarrow> 'k index \<Rightarrow> 'k index" where
  "set_bucket t ks [] = []"
| "set_bucket t ks ((t', ks') # rest) =
     (if t = t' then (t', ks) # rest else (t', ks') # set_bucket t ks rest)"

text \<open>\<^verbatim>\<open>sorted_timeouts_.erase(it)\<close> for the iterator of deadline \<open>t\<close>.\<close>

fun erase_bucket :: "time_ms \<Rightarrow> 'k index \<Rightarrow> 'k index" where
  "erase_bucket t [] = []"
| "erase_bucket t ((t', ks') # rest) =
     (if t = t' then rest else (t', ks') # erase_bucket t rest)"

subsection \<open>The state\<close>

record ('k, 'v) expire_map =
  append_timeouts :: "'k timeout_data list"
  sorted_timeouts :: "'k index"
  lookup_map :: "'k \<rightharpoonup> 'v map_data"
  shutdown :: bool

text \<open>The constructor: an empty log, default-constructed maps, \<^verbatim>\<open>shutdown_ = false\<close>.\<close>

definition expire_map_init :: "('k, 'v) expire_map" where
  "expire_map_init =
     \<lparr>append_timeouts = [], sorted_timeouts = [], lookup_map = Map.empty, shutdown = False\<rparr>"

subsection \<open>\<^verbatim>\<open>get\<close>, \<^verbatim>\<open>remove_internal\<close>, \<^verbatim>\<open>remove\<close>, \<^verbatim>\<open>put\<close>, \<^verbatim>\<open>cleanup\<close>\<close>

text \<open>
  \<^verbatim>\<open>bool get(K key, V *val)\<close>: \<open>None\<close> is \<^verbatim>\<open>false\<close>, \<open>Some v\<close> is \<^verbatim>\<open>true\<close> with \<open>v\<close>
  copied into \<^verbatim>\<open>*val\<close>. The state after the call is returned with the answer.
\<close>

definition get :: "('k, 'v) expire_map \<Rightarrow> time_ms \<Rightarrow> 'k \<Rightarrow> 'v option \<times> ('k, 'v) expire_map" where
  "get s now key =
     (case lookup_map s key of
        None \<Rightarrow> (None, s)
      | Some e \<Rightarrow> if m_timeout e \<le> now then (None, s) else (Some (m_value e), s))"

definition remove_internal :: "('k, 'v) expire_map \<Rightarrow> 'k \<Rightarrow> ('k, 'v) expire_map" where
  "remove_internal s key =
     (case lookup_map s key of
        None \<Rightarrow> s
      | Some e \<Rightarrow>
          s\<lparr>append_timeouts :=
               append_timeouts s @ [\<lparr>t_key = key, t_timeout = m_timeout e, t_overwrite = True\<rparr>],
            lookup_map := (lookup_map s)(key := None)\<rparr>)"

definition remove :: "('k, 'v) expire_map \<Rightarrow> 'k \<Rightarrow> ('k, 'v) expire_map" where
  "remove s key = remove_internal s key"

text \<open>\<^verbatim>\<open>unordered_map::insert\<close> keeps the entry of a key that is already there.\<close>

definition lookup_insert :: "('k \<rightharpoonup> 'v map_data) \<Rightarrow> 'k \<Rightarrow> 'v map_data \<Rightarrow> ('k \<rightharpoonup> 'v map_data)" where
  "lookup_insert m key e = (case m key of None \<Rightarrow> m(key \<mapsto> e) | Some _ \<Rightarrow> m)"

definition put :: "('k, 'v) expire_map \<Rightarrow> time_ms \<Rightarrow> 'k \<Rightarrow> 'v \<Rightarrow> time_ms \<Rightarrow> ('k, 'v) expire_map" where
  "put s now key val ms =
     (let epoch_ms = now + ms;
          s1 = (case lookup_map s key of None \<Rightarrow> s | Some _ \<Rightarrow> remove_internal s key);
          s2 = s1\<lparr>append_timeouts :=
                    append_timeouts s1 @ [\<lparr>t_key = key, t_timeout = epoch_ms, t_overwrite = False\<rparr>]\<rparr>
      in s2\<lparr>lookup_map := lookup_insert (lookup_map s2) key \<lparr>m_value = val, m_timeout = epoch_ms\<rparr>\<rparr>)"

text \<open>
  \<^verbatim>\<open>min_timeout\<close> asserts that the index is not empty. Whether \<^verbatim>\<open>put\<close> ends with
  \<^verbatim>\<open>cv_.notify_all()\<close> changes no field of the state; the condition is kept as a
  function of its own.
\<close>

definition min_timeout :: "('k, 'v) expire_map \<Rightarrow> error + time_ms" where
  "min_timeout s = (case sorted_timeouts s of [] \<Rightarrow> Inl Assertion_Failed | (t, _) # _ \<Rightarrow> Inr t)"

definition put_notifies :: "('k, 'v) expire_map \<Rightarrow> time_ms \<Rightarrow> time_ms \<Rightarrow> bool" where
  "put_notifies s now ms =
     (sorted_timeouts s = [] \<or>
      (case min_timeout s of Inl e \<Rightarrow> False | Inr min_to \<Rightarrow> now + ms \<le> min_to))"

definition cleanup :: "('k, 'v) expire_map \<Rightarrow> ('k, 'v) expire_map" where
  "cleanup s = s\<lparr>shutdown := True\<rparr>"

subsection \<open>\<^verbatim>\<open>populate_sorted_timeouts\<close>: merging the log into the index\<close>

text \<open>
  The body of the lambda, for one record. A record whose deadline has no bucket takes the
  outer \<^verbatim>\<open>else\<close> whatever its \<^verbatim>\<open>overwrite_\<close> flag is, and creates the bucket.
\<close>

definition populate_one :: "'k timeout_data \<Rightarrow> 'k index \<Rightarrow> error + 'k index" where
  "populate_one data idx =
     (case find_bucket idx (t_timeout data) of
        Some ks \<Rightarrow>
          if t_overwrite data then
            (if t_key data \<in> ks then
               (if ks - {t_key data} = {} then Inr (erase_bucket (t_timeout data) idx)
                else Inr (set_bucket (t_timeout data) (ks - {t_key data}) idx))
             else Inl Assertion_Failed)
          else
            (if t_key data \<in> ks then Inl Assertion_Failed
             else Inr (set_bucket (t_timeout data) (insert (t_key data) ks) idx))
      | None \<Rightarrow> Inr (insert_bucket (t_timeout data) {t_key data} idx))"

text \<open>The \<^verbatim>\<open>for_each\<close> over the log, in append order.\<close>

fun populate_from :: "'k timeout_data list \<Rightarrow> 'k index \<Rightarrow> error + 'k index" where
  "populate_from [] idx = Inr idx"
| "populate_from (data # rest) idx =
     (case populate_one data idx of
        Inl e \<Rightarrow> Inl e
      | Inr idx' \<Rightarrow> populate_from rest idx')"

definition populate_sorted_timeouts :: "('k, 'v) expire_map \<Rightarrow> error + ('k, 'v) expire_map" where
  "populate_sorted_timeouts s =
     (case populate_from (append_timeouts s) (sorted_timeouts s) of
        Inl e \<Rightarrow> Inl e
      | Inr idx \<Rightarrow> Inr (s\<lparr>sorted_timeouts := idx, append_timeouts := []\<rparr>))"

subsection \<open>\<^verbatim>\<open>reclaim\<close>: one iteration of the reclaimer's loop\<close>

definition MAX_RECLAIM_ENTRIES :: nat where
  "MAX_RECLAIM_ENTRIES = 10"

text \<open>
  The inner \<^verbatim>\<open>for_each\<close> over one bucket: \<^verbatim>\<open>lookup_map_.erase(key)\<close> with
  \<^verbatim>\<open>assert(result == 1)\<close> for each key of the set. The keys of a set are distinct, so the
  erase of one key returns 1 exactly when that key was in the table before the loop.
\<close>

definition erase_keys :: "'k set \<Rightarrow> ('k \<rightharpoonup> 'v map_data) \<Rightarrow> error + ('k \<rightharpoonup> 'v map_data)" where
  "erase_keys ks m =
     (if \<forall>key\<in>ks. m key \<noteq> None then Inr (\<lambda>key. if key \<in> ks then None else m key)
      else Inl Assertion_Failed)"

text \<open>
  The \<^verbatim>\<open>while\<close> loop from \<^verbatim>\<open>sorted_timeouts_.begin()\<close>: \<open>idx\<close> is what the iterator
  has not passed yet. Every bucket it passes is erased, so \<open>idx\<close> is also the index that is
  left.
\<close>

fun reclaim_loop ::
  "time_ms \<Rightarrow> nat \<Rightarrow> 'k index \<Rightarrow> ('k \<rightharpoonup> 'v map_data) \<Rightarrow> error + ('k index \<times> ('k \<rightharpoonup> 'v map_data))" where
  "reclaim_loop curr_ms num_reclaimed [] m = Inr ([], m)"
| "reclaim_loop curr_ms num_reclaimed ((t, ks) # rest) m =
     (if num_reclaimed < MAX_RECLAIM_ENTRIES then
        (if t \<le> curr_ms then
           (case erase_keys ks m of
              Inl e \<Rightarrow> Inl e
            | Inr m' \<Rightarrow> reclaim_loop curr_ms (num_reclaimed + 1) rest m')
         else Inr ((t, ks) # rest, m))
      else Inr ((t, ks) # rest, m))"

text \<open>
  How one iteration of \<^verbatim>\<open>while (1)\<close> ends: the thread returns, blocks in \<^verbatim>\<open>cv_.wait\<close>,
  blocks in \<^verbatim>\<open>cv_.wait_for\<close> for the given number of milliseconds, or has run the
  reclaiming loop.
\<close>

datatype outcome = Stopped | Empty_Wait | Timed_Wait time_ms | Reclaimed

definition reclaim_round ::
  "time_ms \<Rightarrow> ('k, 'v) expire_map \<Rightarrow> error + (outcome \<times> ('k, 'v) expire_map)" where
  "reclaim_round now s =
     (case populate_sorted_timeouts s of
        Inl e \<Rightarrow> Inl e
      | Inr s1 \<Rightarrow>
          if sorted_timeouts s1 = [] then
            (if shutdown s1 then Inr (Stopped, s1) else Inr (Empty_Wait, s1))
          else
            (case min_timeout s1 of
               Inl e \<Rightarrow> Inl e
             | Inr min_to \<Rightarrow>
                 if min_to > now then Inr (Timed_Wait (min_to - now), s1)
                 else
                   (case reclaim_loop now 0 (sorted_timeouts s1) (lookup_map s1) of
                      Inl e \<Rightarrow> Inl e
                    | Inr (idx, m) \<Rightarrow>
                        Inr (Reclaimed, s1\<lparr>sorted_timeouts := idx, lookup_map := m\<rparr>))))"


section \<open>Runs and the consistency of index, log and table\<close>

text \<open>
  The callers and the reclaimer thread interleave under the mutex. A run is a list of the
  transitions they make, each with the clock reading it saw; the clock readings of a run
  are not required to increase (\<^verbatim>\<open>system_clock\<close> may be set back). A run may go on
  after a round that made the thread return, and after \<^verbatim>\<open>cleanup\<close>: the runs of the
  model include every interleaving of the program.
\<close>

datatype ('k, 'v) event =
  Put time_ms 'k 'v time_ms | Remove 'k | Get time_ms 'k | Round time_ms | Cleanup

fun exec :: "('k, 'v) event \<Rightarrow> ('k, 'v) expire_map \<Rightarrow> error + ('k, 'v) expire_map" where
  "exec (Put now key val ms) s = Inr (put s now key val ms)"
| "exec (Remove key) s = Inr (remove s key)"
| "exec (Get now key) s = Inr (snd (get s now key))"
| "exec (Round now) s = (case reclaim_round now s of Inl e \<Rightarrow> Inl e | Inr (out, s') \<Rightarrow> Inr s')"
| "exec Cleanup s = Inr (cleanup s)"

fun run :: "('k, 'v) event list \<Rightarrow> ('k, 'v) expire_map \<Rightarrow> error + ('k, 'v) expire_map" where
  "run [] s = Inr s"
| "run (ev # evs) s = (case exec ev s of Inl e \<Rightarrow> Inl e | Inr s' \<Rightarrow> run evs s')"

text \<open>Key \<open>k\<close> is in the bucket of deadline \<open>t\<close>.\<close>

definition in_bucket :: "'k index \<Rightarrow> time_ms \<Rightarrow> 'k \<Rightarrow> bool" where
  "in_bucket idx t k = (case find_bucket idx t of None \<Rightarrow> False | Some ks \<Rightarrow> k \<in> ks)"

text \<open>
  What \<^verbatim>\<open>std::map\<close> keeps by itself: the deadlines of the buckets strictly ascend. The
  merge and the reclaiming loop drop a bucket when its last key goes, so no bucket of a
  well-formed index is empty.
\<close>

definition strictly_ascending :: "'k index \<Rightarrow> bool" where
  "strictly_ascending idx = sorted_wrt (<) (map fst idx)"

definition well_formed :: "'k index \<Rightarrow> bool" where
  "well_formed idx = (strictly_ascending idx \<and> (\<forall>(t, ks)\<in>set idx. ks \<noteq> {}))"

text \<open>
  The index is exactly the deadline-to-keys relation of the entry table: \<open>k\<close> is in the
  bucket of \<open>t\<close> if and only if the table holds \<open>k\<close> with deadline \<open>t\<close>.
\<close>

definition index_exact :: "'k index \<Rightarrow> ('k \<rightharpoonup> 'v map_data) \<Rightarrow> bool" where
  "index_exact idx m =
     (well_formed idx \<and> (\<forall>k t. in_bucket idx t k \<longleftrightarrow> (\<exists>e. m k = Some e \<and> m_timeout e = t)))"

text \<open>
  A removal record finds its target when the index has a bucket for the recorded deadline
  and the bucket holds the record's key. \<open>merge_expected\<close> is the merge of
  \<open>populate_from\<close> that also checks this for every removal record at the moment it is
  processed; a state is consistent when the merge of its log succeeds that way and ends in
  the exact index of its table.
\<close>

definition target_present :: "'k timeout_data \<Rightarrow> 'k index \<Rightarrow> bool" where
  "target_present data idx =
     (if t_overwrite data then in_bucket idx (t_timeout data) (t_key data) else True)"

fun merge_expected :: "'k timeout_data list \<Rightarrow> 'k index \<Rightarrow> 'k index option" where
  "merge_expected [] idx = Some idx"
| "merge_expected (data # rest) idx =
     (if target_present data idx then
        (case populate_one data idx of Inl e \<Rightarrow> None | Inr idx' \<Rightarrow> merge_expected rest idx')
      else None)"

definition consistent :: "('k, 'v) expire_map \<Rightarrow> bool" where
  "consistent s =
     (well_formed (sorted_timeouts s) \<and>
      (\<exists>idx. merge_expected (append_timeouts s) (sorted_timeouts s) = Some idx \<and>
         index_exact idx (lookup_map s)))"

text \<open>
  The same relation in the words of the specification: every key of the table is in exactly
  one bucket, whose deadline is the one the table stores for the key; every key of a bucket
  is in the table; no bucket is empty.
\<close>

definition index_matches_table :: "'k index \<Rightarrow> ('k \<rightharpoonup> 'v map_data) \<Rightarrow> bool" where
  "index_matches_table idx m =
     ((\<forall>k e. m k = Some e \<longrightarrow>
         (\<exists>!b. b \<in> set idx \<and> k \<in> snd b) \<and> (\<forall>b\<in>set idx. k \<in> snd b \<longrightarrow> fst b = m_timeout e)) \<and>
      (\<forall>b\<in>set idx. \<forall>k\<in>snd b. m k \<noteq> None) \<and>
      (\<forall>b\<in>set idx. snd b \<noteq> {}))"

text \<open>Concrete states and runs, on which the theorems below are instantiated.\<close>

definition demo :: "(nat, nat) expire_map" where
  "demo = put (put expire_map_init 0 7 11 5) 0 8 22 100"

definition demo_events :: "(nat, nat) event list" where
  "demo_events = [Put 0 7 11 5, Put 0 8 22 100, Round 10]"

definition demo_swept :: "(nat, nat) expire_map" where
  "demo_swept =
     \<lparr>append_timeouts = [], sorted_timeouts = [(100, {8})],
      lookup_map = [8 \<mapsto> \<lparr>m_value = 22, m_timeout = 100\<rparr>], shutdown = False\<rparr>"

definition demo_puts :: "(nat, nat) event list" where
  "demo_puts = [Put 0 7 11 5, Put 0 8 22 100]"

definition demo_zero :: "(nat, nat) expire_map" where
  "demo_zero = put expire_map_init 10 7 11 0"

text \<open>
  An event spares the entry of key \<open>k\<close> with deadline \<open>d\<close> when it is no \<^verbatim>\<open>put\<close> or
  \<^verbatim>\<open>remove\<close> of \<open>k\<close> and no round of the reclaimer at a clock reading of \<open>d\<close> or later.
\<close>

fun spares :: "'k \<Rightarrow> time_ms \<Rightarrow> ('k, 'v) event \<Rightarrow> bool" where
  "spares k d (Put now key val ms) = (key \<noteq> k)"
| "spares k d (Remove key) = (key \<noteq> k)"
| "spares k d (Get now key) = True"
| "spares k d (Round now) = (now < d)"
| "spares k d Cleanup = True"


text \<open>The events that put key \<open>k\<close>.\<close>

fun puts :: "'k \<Rightarrow> ('k, 'v) event \<Rightarrow> bool" where
  "puts k (Put now key val ms) = (key = k)"
| "puts k (Remove key) = False"
| "puts k (Get now key) = False"
| "puts k (Round now) = False"
| "puts k Cleanup = False"



definition demo_wrapped :: "(nat, nat) expire_map" where
  "demo_wrapped = put (put expire_map_init 0 7 11 5) 1 7 22 18446744073709551615"

section \<open>The index as a finite map\<close>

lemma find_bucket_Nil [simp]: "find_bucket [] t = None"
  by (simp add: find_bucket_def)

lemma find_bucket_Cons [simp]:
  "find_bucket ((t', ks) # rest) t = (if t = t' then Some ks else find_bucket rest t)"
  by (simp add: find_bucket_def)

lemma find_bucket_fst: "find_bucket idx t = Some ks \<Longrightarrow> t \<in> fst ` set idx"
  by (induction idx) (auto split: if_splits)

lemma find_bucket_None: "t \<notin> fst ` set idx \<Longrightarrow> find_bucket idx t = None"
  by (induction idx) auto

lemma find_bucket_mem: "find_bucket idx t = Some ks \<Longrightarrow> (t, ks) \<in> set idx"
  by (induction idx) (auto split: if_splits)

lemma find_insert_bucket:
  "find_bucket idx t = None \<Longrightarrow>
   find_bucket (insert_bucket t ks idx) t' = (if t' = t then Some ks else find_bucket idx t')"
  by (induction idx) (auto split: if_splits)

lemma find_set_bucket:
  "find_bucket idx t = Some ks0 \<Longrightarrow>
   find_bucket (set_bucket t ks idx) t' = (if t' = t then Some ks else find_bucket idx t')"
  by (induction idx) (auto split: if_splits)

lemma strictly_ascending_Cons:
  "strictly_ascending ((t, ks) # rest) \<longleftrightarrow> (\<forall>t'\<in>fst ` set rest. t < t') \<and> strictly_ascending rest"
  by (auto simp: strictly_ascending_def)

lemma find_erase_bucket:
  "strictly_ascending idx \<Longrightarrow>
   find_bucket (erase_bucket t idx) t' = (if t' = t then None else find_bucket idx t')"
proof (induction idx)
  case Nil
  then show ?case by simp
next
  case (Cons b rest)
  obtain t0 ks0 where b: "b = (t0, ks0)" by (cases b)
  from Cons.prems b have "t0 \<notin> fst ` set rest" and "strictly_ascending rest"
    by (auto simp: strictly_ascending_Cons)
  with Cons.IH b show ?case
    by (auto simp: find_bucket_None)
qed

lemma set_insert_bucket: "set (insert_bucket t ks idx) \<subseteq> insert (t, ks) (set idx)"
  by (induction idx) (auto split: if_splits)

lemma set_set_bucket: "set (set_bucket t ks idx) \<subseteq> insert (t, ks) (set idx)"
  by (induction idx) (auto split: if_splits)

lemma set_erase_bucket: "set (erase_bucket t idx) \<subseteq> set idx"
  by (induction idx) (auto split: if_splits)

lemma fst_set_bucket [simp]: "map fst (set_bucket t ks idx) = map fst idx"
  by (induction idx) auto

lemma strictly_ascending_insert:
  "strictly_ascending idx \<Longrightarrow> strictly_ascending (insert_bucket t ks idx)"
proof (induction idx)
  case Nil
  then show ?case by (simp add: strictly_ascending_def)
next
  case (Cons b rest)
  obtain t0 ks0 where b: "b = (t0, ks0)" by (cases b)
  have keys: "t' = t \<or> t' \<in> fst ` set rest" if "t' \<in> fst ` set (insert_bucket t ks rest)" for t'
    using that set_insert_bucket [of t ks rest] by auto
  from Cons.prems b have lt: "\<forall>t'\<in>fst ` set rest. t0 < t'" and asc: "strictly_ascending rest"
    by (simp_all add: strictly_ascending_Cons)
  show ?case
  proof (cases "t < t0")
    case True
    with Cons.prems b show ?thesis
      by (fastforce simp: strictly_ascending_def)
  next
    case False
    show ?thesis
    proof (cases "t = t0")
      case True
      with Cons.prems b show ?thesis by simp
    next
      case neq: False
      with False have "t0 < t" by simp
      with keys lt have "\<forall>t'\<in>fst ` set (insert_bucket t ks rest). t0 < t'"
        by blast
      with Cons.IH [OF asc] b False neq show ?thesis
        by (simp add: strictly_ascending_Cons)
    qed
  qed
qed

lemma strictly_ascending_set:
  "strictly_ascending idx \<Longrightarrow> strictly_ascending (set_bucket t ks idx)"
  by (simp add: strictly_ascending_def)

lemma strictly_ascending_erase:
  "strictly_ascending idx \<Longrightarrow> strictly_ascending (erase_bucket t idx)"
proof (induction idx)
  case Nil
  then show ?case by simp
next
  case (Cons b rest)
  obtain t0 ks0 where b: "b = (t0, ks0)" by (cases b)
  from Cons b set_erase_bucket [of t rest] show ?case
    by (auto simp: strictly_ascending_Cons)
qed

section \<open>Merging one record\<close>

lemma well_formed_insert:
  "well_formed idx \<Longrightarrow> ks \<noteq> {} \<Longrightarrow> well_formed (insert_bucket t ks idx)"
  using set_insert_bucket [of t ks idx]
  by (auto simp: well_formed_def strictly_ascending_insert)

lemma well_formed_set:
  "well_formed idx \<Longrightarrow> ks \<noteq> {} \<Longrightarrow> well_formed (set_bucket t ks idx)"
  using set_set_bucket [of t ks idx]
  by (auto simp: well_formed_def strictly_ascending_set)

lemma well_formed_erase:
  "well_formed idx \<Longrightarrow> well_formed (erase_bucket t idx)"
  using set_erase_bucket [of t idx]
  by (auto simp: well_formed_def strictly_ascending_erase)

lemma populate_one_insertion:
  assumes wf: "well_formed idx" and ins: "\<not> t_overwrite d"
    and new: "\<not> in_bucket idx (t_timeout d) (t_key d)"
  shows "\<exists>idx'. populate_one d idx = Inr idx' \<and> well_formed idx' \<and>
           (\<forall>t k. in_bucket idx' t k \<longleftrightarrow> in_bucket idx t k \<or> (t = t_timeout d \<and> k = t_key d))"
proof (cases "find_bucket idx (t_timeout d)")
  case None
  then have "populate_one d idx = Inr (insert_bucket (t_timeout d) {t_key d} idx)"
    by (simp add: populate_one_def)
  moreover have "well_formed (insert_bucket (t_timeout d) {t_key d} idx)"
    using wf by (simp add: well_formed_insert)
  moreover have "in_bucket (insert_bucket (t_timeout d) {t_key d} idx) t k
      \<longleftrightarrow> in_bucket idx t k \<or> (t = t_timeout d \<and> k = t_key d)" for t k
    using None by (simp add: in_bucket_def find_insert_bucket)
  ultimately show ?thesis by simp
next
  case (Some ks)
  with new have notin: "t_key d \<notin> ks" by (simp add: in_bucket_def)
  with Some ins have "populate_one d idx = Inr (set_bucket (t_timeout d) (insert (t_key d) ks) idx)"
    by (simp add: populate_one_def)
  moreover have "well_formed (set_bucket (t_timeout d) (insert (t_key d) ks) idx)"
    using wf by (simp add: well_formed_set)
  moreover have "in_bucket (set_bucket (t_timeout d) (insert (t_key d) ks) idx) t k
      \<longleftrightarrow> in_bucket idx t k \<or> (t = t_timeout d \<and> k = t_key d)" for t k
    using Some by (auto simp: in_bucket_def find_set_bucket)
  ultimately show ?thesis by simp
qed

lemma populate_one_removal:
  assumes wf: "well_formed idx" and rem: "t_overwrite d"
    and old: "in_bucket idx (t_timeout d) (t_key d)"
  shows "\<exists>idx'. populate_one d idx = Inr idx' \<and> well_formed idx' \<and>
           (\<forall>t k. in_bucket idx' t k \<longleftrightarrow> in_bucket idx t k \<and> \<not> (t = t_timeout d \<and> k = t_key d))"
proof -
  from old obtain ks where Some: "find_bucket idx (t_timeout d) = Some ks" and mem: "t_key d \<in> ks"
    by (auto simp: in_bucket_def split: option.splits)
  from wf have asc: "strictly_ascending idx" by (simp add: well_formed_def)
  show ?thesis
  proof (cases "ks - {t_key d} = {}")
    case True
    with Some rem mem have "populate_one d idx = Inr (erase_bucket (t_timeout d) idx)"
      by (simp add: populate_one_def)
    moreover have "well_formed (erase_bucket (t_timeout d) idx)"
      using wf by (rule well_formed_erase)
    moreover have "in_bucket (erase_bucket (t_timeout d) idx) t k
        \<longleftrightarrow> in_bucket idx t k \<and> \<not> (t = t_timeout d \<and> k = t_key d)" for t k
      using Some True asc by (auto simp: in_bucket_def find_erase_bucket)
    ultimately show ?thesis by simp
  next
    case False
    with Some rem mem
    have "populate_one d idx = Inr (set_bucket (t_timeout d) (ks - {t_key d}) idx)"
      by (simp add: populate_one_def)
    moreover have "well_formed (set_bucket (t_timeout d) (ks - {t_key d}) idx)"
      using wf False by (simp add: well_formed_set)
    moreover have "in_bucket (set_bucket (t_timeout d) (ks - {t_key d}) idx) t k
        \<longleftrightarrow> in_bucket idx t k \<and> \<not> (t = t_timeout d \<and> k = t_key d)" for t k
      using Some by (auto simp: in_bucket_def find_set_bucket)
    ultimately show ?thesis by simp
  qed
qed

lemma populate_one_well_formed:
  assumes wf: "well_formed idx" and res: "populate_one d idx = Inr idx'"
  shows "well_formed idx'"
proof (cases "find_bucket idx (t_timeout d)")
  case None
  with res wf show ?thesis
    by (auto simp: populate_one_def well_formed_insert)
next
  case (Some ks)
  show ?thesis
  proof (cases "t_overwrite d")
    case True
    with Some res have mem: "t_key d \<in> ks"
      by (auto simp: populate_one_def split: if_splits)
    show ?thesis
    proof (cases "ks - {t_key d} = {}")
      case True
      with Some res \<open>t_overwrite d\<close> mem have "idx' = erase_bucket (t_timeout d) idx"
        by (simp add: populate_one_def)
      with wf show ?thesis by (simp add: well_formed_erase)
    next
      case False
      from False Some res \<open>t_overwrite d\<close> mem
      have "idx' = set_bucket (t_timeout d) (ks - {t_key d}) idx"
        by (simp add: populate_one_def)
      moreover from wf False
      have "well_formed (set_bucket (t_timeout d) (ks - {t_key d}) idx)"
        by (rule well_formed_set)
      ultimately show ?thesis by simp
    qed
  next
    case False
    with Some res have "idx' = set_bucket (t_timeout d) (insert (t_key d) ks) idx"
      by (auto simp: populate_one_def split: if_splits)
    with wf show ?thesis by (simp add: well_formed_set)
  qed
qed

section \<open>Merging the whole log\<close>

lemma merge_expected_populate:
  "merge_expected log idx = Some idx' \<Longrightarrow> populate_from log idx = Inr idx'"
  by (induction log arbitrary: idx) (auto split: if_splits sum.splits)

lemma merge_expected_append:
  "merge_expected (xs @ ys) idx =
     (case merge_expected xs idx of None \<Rightarrow> None | Some idx' \<Rightarrow> merge_expected ys idx')"
  by (induction xs arbitrary: idx) (auto split: sum.splits)


lemma populate_from_well_formed:
  "well_formed idx \<Longrightarrow> populate_from log idx = Inr idx' \<Longrightarrow> well_formed idx'"
  by (induction log arbitrary: idx) (auto split: sum.splits dest: populate_one_well_formed)

section \<open>Exactness under one more record\<close>

lemma exact_removal:
  assumes ex: "index_exact idx m" and k: "m k = Some e"
  shows "\<exists>idx'. merge_expected [\<lparr>t_key = k, t_timeout = m_timeout e, t_overwrite = True\<rparr>] idx = Some idx'
           \<and> index_exact idx' (m(k := None))"
proof -
  let ?d = "\<lparr>t_key = k, t_timeout = m_timeout e, t_overwrite = True\<rparr>"
  from ex have wf: "well_formed idx"
    and rel: "\<And>k t. in_bucket idx t k \<longleftrightarrow> (\<exists>e. m k = Some e \<and> m_timeout e = t)"
    by (simp_all add: index_exact_def)
  from rel k have old: "in_bucket idx (t_timeout ?d) (t_key ?d)" by simp
  from populate_one_removal [OF wf _ old]
  obtain idx' where p: "populate_one ?d idx = Inr idx'" and wf': "well_formed idx'"
    and rel': "\<And>t k'. in_bucket idx' t k' \<longleftrightarrow> in_bucket idx t k' \<and> \<not> (t = m_timeout e \<and> k' = k)"
    by auto
  have "in_bucket idx' t k' \<longleftrightarrow> (\<exists>e'. (m(k := None)) k' = Some e' \<and> m_timeout e' = t)" for t k'
    using rel' [of t k'] rel [of t k'] k by auto
  with wf' have "index_exact idx' (m(k := None))" by (simp add: index_exact_def)
  moreover from p old have "merge_expected [?d] idx = Some idx'"
    by (simp add: target_present_def)
  ultimately show ?thesis by blast
qed

lemma exact_insertion:
  assumes ex: "index_exact idx m" and k: "m k = None"
  shows "\<exists>idx'. merge_expected [\<lparr>t_key = k, t_timeout = t0, t_overwrite = False\<rparr>] idx = Some idx'
           \<and> index_exact idx' (m(k \<mapsto> \<lparr>m_value = v, m_timeout = t0\<rparr>))"
proof -
  let ?d = "\<lparr>t_key = k, t_timeout = t0, t_overwrite = False\<rparr>"
  from ex have wf: "well_formed idx"
    and rel: "\<And>k t. in_bucket idx t k \<longleftrightarrow> (\<exists>e. m k = Some e \<and> m_timeout e = t)"
    by (simp_all add: index_exact_def)
  from rel k have new: "\<not> in_bucket idx (t_timeout ?d) (t_key ?d)" by simp
  from populate_one_insertion [OF wf _ new]
  obtain idx' where p: "populate_one ?d idx = Inr idx'" and wf': "well_formed idx'"
    and rel': "\<And>t k'. in_bucket idx' t k' \<longleftrightarrow> in_bucket idx t k' \<or> (t = t0 \<and> k' = k)"
    by auto
  have "in_bucket idx' t k'
      \<longleftrightarrow> (\<exists>e'. (m(k \<mapsto> \<lparr>m_value = v, m_timeout = t0\<rparr>)) k' = Some e' \<and> m_timeout e' = t)" for t k'
    using rel' [of t k'] rel [of t k'] k by auto
  with wf' have "index_exact idx' (m(k \<mapsto> \<lparr>m_value = v, m_timeout = t0\<rparr>))"
    by (simp add: index_exact_def)
  moreover from p have "merge_expected [?d] idx = Some idx'"
    by (simp add: target_present_def)
  ultimately show ?thesis by blast
qed

section \<open>The operations keep the state consistent\<close>

lemma consistent_init: "consistent expire_map_init"
  by (simp add: consistent_def expire_map_init_def index_exact_def well_formed_def
      strictly_ascending_def in_bucket_def)

lemma consistent_remove_internal:
  assumes "consistent s"
  shows "consistent (remove_internal s k)"
proof (cases "lookup_map s k")
  case None
  with assms show ?thesis by (simp add: remove_internal_def)
next
  case (Some e)
  from assms obtain idx where wf: "well_formed (sorted_timeouts s)"
    and m: "merge_expected (append_timeouts s) (sorted_timeouts s) = Some idx"
    and ex: "index_exact idx (lookup_map s)"
    by (auto simp: consistent_def)
  from exact_removal [OF ex Some] obtain idx'
    where "merge_expected [\<lparr>t_key = k, t_timeout = m_timeout e, t_overwrite = True\<rparr>] idx = Some idx'"
      and "index_exact idx' ((lookup_map s)(k := None))"
    by blast
  with wf m Some show ?thesis
    by (simp add: consistent_def remove_internal_def merge_expected_append)
qed

lemma lookup_remove_internal:
  "lookup_map (remove_internal s k) = (lookup_map s)(k := None)"
  by (auto simp: remove_internal_def split: option.splits)

lemma lookup_put:
  "lookup_map (put s now k v ms) = (lookup_map s)(k \<mapsto> \<lparr>m_value = v, m_timeout = now + ms\<rparr>)"
  by (auto simp: put_def remove_internal_def lookup_insert_def Let_def split: option.splits)

lemma put_as_remove:
  "put s now k v ms =
     (remove_internal s k)\<lparr>append_timeouts := append_timeouts (remove_internal s k) @
         [\<lparr>t_key = k, t_timeout = now + ms, t_overwrite = False\<rparr>],
       lookup_map := (lookup_map (remove_internal s k))(k \<mapsto> \<lparr>m_value = v, m_timeout = now + ms\<rparr>)\<rparr>"
  by (auto simp: put_def remove_internal_def lookup_insert_def Let_def split: option.splits)

lemma consistent_put:
  assumes "consistent s"
  shows "consistent (put s now k v ms)"
proof -
  let ?r = "remove_internal s k"
  from assms have "consistent ?r" by (rule consistent_remove_internal)
  then obtain idx where wf: "well_formed (sorted_timeouts ?r)"
    and m: "merge_expected (append_timeouts ?r) (sorted_timeouts ?r) = Some idx"
    and ex: "index_exact idx (lookup_map ?r)"
    by (auto simp: consistent_def)
  have "lookup_map ?r k = None" by (simp add: lookup_remove_internal)
  from exact_insertion [OF ex this, of "now + ms" v] obtain idx'
    where "merge_expected [\<lparr>t_key = k, t_timeout = now + ms, t_overwrite = False\<rparr>] idx = Some idx'"
      and "index_exact idx' ((lookup_map ?r)(k \<mapsto> \<lparr>m_value = v, m_timeout = now + ms\<rparr>))"
    by blast
  with wf m show ?thesis
    by (simp add: put_as_remove [of s now k v ms] consistent_def merge_expected_append)
qed

lemma consistent_cleanup: "consistent s \<Longrightarrow> consistent (cleanup s)"
  by (simp add: consistent_def cleanup_def)

lemma get_state: "snd (get s now k) = s"
  by (simp add: get_def split: option.splits)

section \<open>The reclaiming loop on an exact index\<close>

lemma find_bucket_of_mem:
  "strictly_ascending idx \<Longrightarrow> (t, ks) \<in> set idx \<Longrightarrow> find_bucket idx t = Some ks"
proof (induction idx)
  case Nil
  then show ?case by simp
next
  case (Cons b rest)
  obtain t0 ks0 where b: "b = (t0, ks0)" by (cases b)
  with Cons show ?case
    by (force simp: strictly_ascending_Cons)
qed

lemma in_bucket_iff_mem:
  "strictly_ascending idx \<Longrightarrow> in_bucket idx t k \<longleftrightarrow> (\<exists>ks. (t, ks) \<in> set idx \<and> k \<in> ks)"
  by (auto simp: in_bucket_def find_bucket_of_mem dest: find_bucket_mem split: option.splits)

lemma exact_head:
  assumes "index_exact ((t, ks) # rest) m"
  shows "(\<forall>key\<in>ks. m key \<noteq> None) \<and> index_exact rest (\<lambda>key. if key \<in> ks then None else m key)"
proof -
  from assms have wf: "well_formed ((t, ks) # rest)"
    and rel: "\<And>k t'. in_bucket ((t, ks) # rest) t' k \<longleftrightarrow> (\<exists>e. m k = Some e \<and> m_timeout e = t')"
    by (simp_all add: index_exact_def)
  from wf have "t \<notin> fst ` set rest" and wf': "well_formed rest"
    by (auto simp: well_formed_def strictly_ascending_Cons)
  then have fresh: "find_bucket rest t = None" by (simp add: find_bucket_None)
  have head: "k \<in> ks \<longleftrightarrow> (\<exists>e. m k = Some e \<and> m_timeout e = t)" for k
    using rel [of t k] by (simp add: in_bucket_def)
  have tail: "in_bucket rest t' k \<longleftrightarrow> t' \<noteq> t \<and> (\<exists>e. m k = Some e \<and> m_timeout e = t')" for t' k
    using rel [of t' k] fresh by (cases "t' = t") (auto simp: in_bucket_def)
  have "in_bucket rest t' k
      \<longleftrightarrow> (\<exists>e. (if k \<in> ks then None else m k) = Some e \<and> m_timeout e = t')" for t' k
    using tail [of t' k] head [of k] by auto
  with wf' have "index_exact rest (\<lambda>key. if key \<in> ks then None else m key)"
    by (simp add: index_exact_def)
  moreover from head have "\<forall>key\<in>ks. m key \<noteq> None" by auto
  ultimately show ?thesis by simp
qed

lemma ascending_after_head:
  "strictly_ascending ((t, ks) # rest) \<Longrightarrow> curr_ms < t \<Longrightarrow> (t', ks') \<in> set ((t, ks) # rest) \<Longrightarrow> curr_ms < t'"
  by (force simp: strictly_ascending_Cons)

lemma reclaim_loop_exact:
  assumes "index_exact idx m"
  shows "\<exists>j. reclaim_loop curr_ms n idx m =
             Inr (drop j idx, (\<lambda>key. if key \<in> \<Union>(snd ` set (take j idx)) then None else m key))
           \<and> n + j \<le> max n MAX_RECLAIM_ENTRIES
           \<and> (\<forall>(t, ks)\<in>set (take j idx). t \<le> curr_ms)
           \<and> (n + j < MAX_RECLAIM_ENTRIES \<longrightarrow> (\<forall>(t, ks)\<in>set (drop j idx). curr_ms < t))
           \<and> index_exact (drop j idx) (\<lambda>key. if key \<in> \<Union>(snd ` set (take j idx)) then None else m key)"
  using assms
proof (induction idx arbitrary: n m)
  case Nil
  then show ?case by (intro exI [of _ 0]) simp
next
  case (Cons b rest)
  obtain t ks where b: "b = (t, ks)" by (cases b)
  show ?case
  proof (cases "n < MAX_RECLAIM_ENTRIES \<and> t \<le> curr_ms")
    case True
    let ?m1 = "\<lambda>key. if key \<in> ks then None else m key"
    from exact_head [OF Cons.prems [unfolded b]]
    have present: "\<forall>key\<in>ks. m key \<noteq> None" and ex1: "index_exact rest ?m1"
      by simp_all
    from Cons.IH [OF ex1, of "n + 1"] obtain j where
      loop: "reclaim_loop curr_ms (n + 1) rest ?m1 =
               Inr (drop j rest, (\<lambda>key. if key \<in> \<Union>(snd ` set (take j rest)) then None else ?m1 key))"
      and bound: "n + 1 + j \<le> max (n + 1) MAX_RECLAIM_ENTRIES"
      and due: "\<forall>(t, ks)\<in>set (take j rest). t \<le> curr_ms"
      and stop: "n + 1 + j < MAX_RECLAIM_ENTRIES \<longrightarrow> (\<forall>(t, ks)\<in>set (drop j rest). curr_ms < t)"
      and ex: "index_exact (drop j rest)
                 (\<lambda>key. if key \<in> \<Union>(snd ` set (take j rest)) then None else ?m1 key)"
      by blast
    have maps: "(\<lambda>key. if key \<in> \<Union>(snd ` set (take j rest)) then None else ?m1 key)
        = (\<lambda>key. if key \<in> \<Union>(snd ` set (take (Suc j) (b # rest))) then None else m key)"
      by (auto simp: b fun_eq_iff)
    have "reclaim_loop curr_ms n (b # rest) m = reclaim_loop curr_ms (n + 1) rest ?m1"
      using True present by (simp add: b erase_keys_def)
    with loop maps have "reclaim_loop curr_ms n (b # rest) m =
        Inr (drop (Suc j) (b # rest),
             (\<lambda>key. if key \<in> \<Union>(snd ` set (take (Suc j) (b # rest))) then None else m key))"
      by simp
    moreover from bound True have "n + Suc j \<le> max n MAX_RECLAIM_ENTRIES" by simp
    moreover from due True have "\<forall>(t, ks)\<in>set (take (Suc j) (b # rest)). t \<le> curr_ms"
      by (simp add: b)
    moreover from stop
    have "n + Suc j < MAX_RECLAIM_ENTRIES \<longrightarrow> (\<forall>(t, ks)\<in>set (drop (Suc j) (b # rest)). curr_ms < t)"
      by simp
    moreover from ex maps
    have "index_exact (drop (Suc j) (b # rest))
            (\<lambda>key. if key \<in> \<Union>(snd ` set (take (Suc j) (b # rest))) then None else m key)"
      by simp
    ultimately show ?thesis by blast
  next
    case False
    then have "reclaim_loop curr_ms n (b # rest) m = Inr (b # rest, m)"
      by (auto simp: b)
    moreover have "n < MAX_RECLAIM_ENTRIES \<longrightarrow> (\<forall>(t', ks')\<in>set (b # rest). curr_ms < t')"
    proof
      assume "n < MAX_RECLAIM_ENTRIES"
      with False have "curr_ms < t" by simp
      moreover from Cons.prems have "strictly_ascending ((t, ks) # rest)"
        by (simp add: index_exact_def well_formed_def b)
      ultimately show "\<forall>(t', ks')\<in>set (b # rest). curr_ms < t'"
        unfolding b using ascending_after_head by blast
    qed
    ultimately have "reclaim_loop curr_ms n (b # rest) m =
          Inr (drop 0 (b # rest),
               (\<lambda>key. if key \<in> \<Union>(snd ` set (take 0 (b # rest))) then None else m key))
        \<and> n + 0 \<le> max n MAX_RECLAIM_ENTRIES
        \<and> (\<forall>(t, ks)\<in>set (take 0 (b # rest)). t \<le> curr_ms)
        \<and> (n + 0 < MAX_RECLAIM_ENTRIES \<longrightarrow> (\<forall>(t, ks)\<in>set (drop 0 (b # rest)). curr_ms < t))
        \<and> index_exact (drop 0 (b # rest))
             (\<lambda>key. if key \<in> \<Union>(snd ` set (take 0 (b # rest))) then None else m key)"
      using Cons.prems by simp
    then show ?thesis by blast
  qed
qed

section \<open>One round of the reclaimer\<close>

lemma populate_consistent:
  assumes "consistent s"
  shows "\<exists>idx. populate_sorted_timeouts s = Inr (s\<lparr>sorted_timeouts := idx, append_timeouts := []\<rparr>)
           \<and> index_exact idx (lookup_map s)"
proof -
  from assms obtain idx
    where "merge_expected (append_timeouts s) (sorted_timeouts s) = Some idx"
      and "index_exact idx (lookup_map s)"
    by (auto simp: consistent_def)
  moreover from this(1) have "populate_from (append_timeouts s) (sorted_timeouts s) = Inr idx"
    by (rule merge_expected_populate)
  then have "populate_sorted_timeouts s = Inr (s\<lparr>sorted_timeouts := idx, append_timeouts := []\<rparr>)"
    by (simp add: populate_sorted_timeouts_def)
  ultimately show ?thesis by blast
qed

lemma reclaim_round_exact:
  assumes "consistent s"
  shows "\<exists>idx out s' j.
           populate_sorted_timeouts s = Inr (s\<lparr>sorted_timeouts := idx, append_timeouts := []\<rparr>)
           \<and> index_exact idx (lookup_map s)
           \<and> reclaim_round now s = Inr (out, s')
           \<and> j \<le> MAX_RECLAIM_ENTRIES
           \<and> sorted_timeouts s' = drop j idx
           \<and> append_timeouts s' = []
           \<and> shutdown s' = shutdown s
           \<and> lookup_map s' = (\<lambda>key. if key \<in> \<Union>(snd ` set (take j idx)) then None
                                      else lookup_map s key)
           \<and> (\<forall>(t, ks)\<in>set (take j idx). t \<le> now)
           \<and> (j < MAX_RECLAIM_ENTRIES \<longrightarrow> (\<forall>(t, ks)\<in>set (drop j idx). now < t))
           \<and> index_exact (sorted_timeouts s') (lookup_map s')"
proof -
  from populate_consistent [OF assms] obtain idx
    where pop: "populate_sorted_timeouts s = Inr (s\<lparr>sorted_timeouts := idx, append_timeouts := []\<rparr>)"
      and ex: "index_exact idx (lookup_map s)"
    by blast
  let ?s1 = "s\<lparr>sorted_timeouts := idx, append_timeouts := []\<rparr>"
  have waiting: ?thesis
    if round: "reclaim_round now s = Inr (out, ?s1)" and future: "\<forall>(t, ks)\<in>set idx. now < t"
    for out
  proof (intro exI [of _ idx] exI [of _ out] exI [of _ ?s1] exI [of _ "0::nat"] conjI)
    show "lookup_map ?s1 = (\<lambda>key. if key \<in> \<Union>(snd ` set (take 0 idx)) then None
                                      else lookup_map s key)"
      by simp
    show "0 < MAX_RECLAIM_ENTRIES \<longrightarrow> (\<forall>(t, ks)\<in>set (drop 0 idx). now < t)"
      using future by simp
    show "index_exact (sorted_timeouts ?s1) (lookup_map ?s1)"
      using ex by simp
  qed (simp_all add: pop ex round)
  show ?thesis
  proof (cases idx)
    case Nil
    with pop have "\<exists>out. reclaim_round now s = Inr (out, ?s1)"
      by (simp add: reclaim_round_def min_timeout_def)
    then obtain out where "reclaim_round now s = Inr (out, ?s1)" ..
    moreover from Nil have "\<forall>(t, ks)\<in>set idx. now < t" by simp
    ultimately show ?thesis by (rule waiting)
  next
    case (Cons b rest)
    obtain t ks where b: "b = (t, ks)" by (cases b)
    show ?thesis
    proof (cases "now < t")
      case True
      with pop Cons b have "reclaim_round now s = Inr (Timed_Wait (t - now), ?s1)"
        by (simp add: reclaim_round_def min_timeout_def)
      moreover from ex Cons b have "strictly_ascending ((t, ks) # rest)"
        by (simp add: index_exact_def well_formed_def)
      with True have "\<forall>(t', ks')\<in>set idx. now < t'"
        unfolding Cons b using ascending_after_head by blast
      ultimately show ?thesis by (rule waiting)
    next
      case False
      from reclaim_loop_exact [OF ex, of now 0] obtain j where
        loop: "reclaim_loop now 0 idx (lookup_map s) =
                 Inr (drop j idx, (\<lambda>key. if key \<in> \<Union>(snd ` set (take j idx)) then None
                                          else lookup_map s key))"
        and bound: "j \<le> MAX_RECLAIM_ENTRIES"
        and due: "\<forall>(t, ks)\<in>set (take j idx). t \<le> now"
        and stop: "j < MAX_RECLAIM_ENTRIES \<longrightarrow> (\<forall>(t, ks)\<in>set (drop j idx). now < t)"
        and ex': "index_exact (drop j idx)
                   (\<lambda>key. if key \<in> \<Union>(snd ` set (take j idx)) then None else lookup_map s key)"
        by auto
      let ?s' = "s\<lparr>sorted_timeouts := drop j idx, append_timeouts := [],
                    lookup_map := (\<lambda>key. if key \<in> \<Union>(snd ` set (take j idx)) then None
                                          else lookup_map s key)\<rparr>"
      from pop Cons b False loop have round: "reclaim_round now s = Inr (Reclaimed, ?s')"
        by (simp add: reclaim_round_def min_timeout_def)
      show ?thesis
      proof (intro exI [of _ idx] exI [of _ Reclaimed] exI [of _ ?s'] exI [of _ j] conjI)
        show "index_exact (sorted_timeouts ?s') (lookup_map ?s')"
          using ex' by simp
      qed (simp_all add: pop ex round bound due stop)
    qed
  qed
qed

lemma index_exact_consistent:
  "append_timeouts s = [] \<Longrightarrow> index_exact (sorted_timeouts s) (lookup_map s) \<Longrightarrow> consistent s"
  by (simp add: consistent_def index_exact_def)

lemma consistent_quiescent:
  "consistent s \<Longrightarrow> append_timeouts s = [] \<Longrightarrow> index_exact (sorted_timeouts s) (lookup_map s)"
  by (simp add: consistent_def)

lemma reclaim_round_consistent:
  assumes "consistent s"
  shows "\<exists>out s'. reclaim_round now s = Inr (out, s') \<and> consistent s' \<and> append_timeouts s' = []"
proof -
  from reclaim_round_exact [OF assms, of now] obtain out s'
    where "reclaim_round now s = Inr (out, s')"
      and "append_timeouts s' = []"
      and "index_exact (sorted_timeouts s') (lookup_map s')"
    by blast
  then show ?thesis
    by (auto intro: index_exact_consistent)
qed

section \<open>Every run\<close>

lemma exec_consistent:
  "consistent s \<Longrightarrow> \<exists>s'. exec ev s = Inr s' \<and> consistent s'"
proof (cases ev)
  case (Round now)
  assume "consistent s"
  from reclaim_round_consistent [OF this, of now] Round show ?thesis by auto
qed (simp_all add: consistent_put remove_def consistent_remove_internal get_state consistent_cleanup)

lemma run_consistent:
  "consistent s \<Longrightarrow> \<exists>s'. run evs s = Inr s' \<and> consistent s'"
proof (induction evs arbitrary: s)
  case Nil
  then show ?case by simp
next
  case (Cons ev evs)
  from exec_consistent [OF Cons.prems, of ev] obtain s1
    where "exec ev s = Inr s1" and "consistent s1" by blast
  with Cons.IH [of s1] show ?case by simp
qed

lemma reachable_consistent:
  "run evs expire_map_init = Inr s \<Longrightarrow> consistent s"
  using run_consistent [OF consistent_init, of evs] by auto

lemma index_exact_matches:
  assumes "index_exact idx m"
  shows "index_matches_table idx m"
proof -
  from assms have asc: "strictly_ascending idx" and ne: "\<forall>(t, ks)\<in>set idx. ks \<noteq> {}"
    and rel: "\<And>k t. in_bucket idx t k \<longleftrightarrow> (\<exists>e. m k = Some e \<and> m_timeout e = t)"
    by (simp_all add: index_exact_def well_formed_def)
  have mem: "(\<exists>e. m k = Some e \<and> m_timeout e = fst b)" if "b \<in> set idx" "k \<in> snd b" for b k
  proof -
    have "(fst b, snd b) \<in> set idx" using that(1) by simp
    with that(2) have "in_bucket idx (fst b) k"
      using in_bucket_iff_mem [OF asc, of "fst b" k] by blast
    with rel show ?thesis by simp
  qed
  have one: "\<exists>!b. b \<in> set idx \<and> k \<in> snd b" if "m k = Some e" for k e
  proof -
    from that rel have "in_bucket idx (m_timeout e) k" by auto
    then obtain ks where b: "(m_timeout e, ks) \<in> set idx" "k \<in> ks"
      using in_bucket_iff_mem [OF asc] by blast
    have uniq: "b' = (m_timeout e, ks)" if b': "b' \<in> set idx" "k \<in> snd b'" for b'
    proof -
      from mem [OF b'] \<open>m k = Some e\<close> have "fst b' = m_timeout e" by auto
      with b'(1) have "(m_timeout e, snd b') \<in> set idx"
        by (metis prod.collapse)
      with b(1) asc have "Some (snd b') = Some ks"
        by (metis find_bucket_of_mem)
      with \<open>fst b' = m_timeout e\<close> show ?thesis
        by (metis option.inject prod.collapse)
    qed
    show ?thesis
    proof (rule ex1I [of _ "(m_timeout e, ks)"])
      show "(m_timeout e, ks) \<in> set idx \<and> k \<in> snd (m_timeout e, ks)"
        using b by simp
    next
      fix b' assume "b' \<in> set idx \<and> k \<in> snd b'"
      then show "b' = (m_timeout e, ks)" using uniq by blast
    qed
  qed
  have dl: "fst b = m_timeout e" if "m k = Some e" "b \<in> set idx" "k \<in> snd b" for k e b
    using mem [OF that(2,3)] that(1) by auto
  have present: "m k \<noteq> None" if "b \<in> set idx" "k \<in> snd b" for b k
    using mem [OF that] by auto
  have nonempty: "snd b \<noteq> {}" if "b \<in> set idx" for b
    using ne that by (cases b) auto
  show ?thesis
    unfolding index_matches_table_def
  proof (intro conjI allI impI ballI)
    fix k e assume "m k = Some e"
    then show "\<exists>!b. b \<in> set idx \<and> k \<in> snd b" by (rule one)
  next
    fix k e b assume "m k = Some e" "b \<in> set idx" "k \<in> snd b"
    then show "fst b = m_timeout e" by (rule dl)
  next
    fix b k assume "b \<in> set idx" "k \<in> snd b"
    then show "m k \<noteq> None" by (rule present)
  next
    fix b assume "b \<in> set idx"
    then show "snd b \<noteq> {}" by (rule nonempty)
  qed
qed

section \<open>The concrete run\<close>

lemma demo_fields:
  "append_timeouts demo =
     [\<lparr>t_key = 7, t_timeout = 5, t_overwrite = False\<rparr>,
      \<lparr>t_key = 8, t_timeout = 100, t_overwrite = False\<rparr>]"
  "sorted_timeouts demo = []"
  "lookup_map demo = [7 \<mapsto> \<lparr>m_value = 11, m_timeout = 5\<rparr>, 8 \<mapsto> \<lparr>m_value = 22, m_timeout = 100\<rparr>]"
  "shutdown demo = False"
  by (simp_all add: demo_def put_def remove_internal_def expire_map_init_def lookup_insert_def)

lemma demo_populate:
  "populate_sorted_timeouts demo =
     Inr (demo\<lparr>sorted_timeouts := [(5, {7}), (100, {8})], append_timeouts := []\<rparr>)"
  by (simp add: populate_sorted_timeouts_def demo_fields populate_one_def)

lemma demo_round: "reclaim_round 10 demo = Inr (Reclaimed, demo_swept)"
  by (simp add: reclaim_round_def min_timeout_def demo_populate erase_keys_def MAX_RECLAIM_ENTRIES_def
      demo_fields demo_swept_def fun_eq_iff)

lemma demo_run: "run demo_events expire_map_init = Inr demo_swept"
  by (simp add: demo_events_def demo_round demo_def [symmetric])

section \<open>Lookups and removals\<close>

text \<open>
  C9. For every state and every key that is not in the entry table, \<^verbatim>\<open>remove\<close> returns
  the state as it was: entry table, pending log and deadline index are unchanged.
\<close>

theorem remove_absent_noop:
  "lookup_map s k = None \<Longrightarrow> remove s k = s"
  by (simp add: remove_def remove_internal_def)

theorem remove_absent_noop_witness:
  "lookup_map (expire_map_init :: (nat, nat) expire_map) 7 = None
   \<and> remove (expire_map_init :: (nat, nat) expire_map) 7 = expire_map_init"
  using remove_absent_noop [of "expire_map_init :: (nat, nat) expire_map" 7]
  by (simp add: expire_map_init_def)

text \<open>
  C5. \<^verbatim>\<open>get\<close> answers not-found for a key that is not in the entry table; not-found for a
  key whose stored deadline is less than or equal to the clock reading; and found, with the
  stored value, otherwise. In all three cases the state is returned as it was.
\<close>

theorem get_cases:
  "(lookup_map s k = None \<longrightarrow> get s now k = (None, s)) \<and>
   (\<forall>e. lookup_map s k = Some e \<and> m_timeout e \<le> now \<longrightarrow> get s now k = (None, s)) \<and>
   (\<forall>e. lookup_map s k = Some e \<and> now < m_timeout e \<longrightarrow> get s now k = (Some (m_value e), s))"
  by (auto simp: get_def)

theorem get_cases_witness:
  "lookup_map demo 3 = None \<and> get demo 10 3 = (None, demo) \<and>
   lookup_map demo 7 = Some \<lparr>m_value = 11, m_timeout = 5\<rparr> \<and> get demo 10 7 = (None, demo) \<and>
   lookup_map demo 8 = Some \<lparr>m_value = 22, m_timeout = 100\<rparr> \<and> get demo 10 8 = (Some 22, demo)"
proof -
  have l3: "lookup_map demo 3 = None"
    and l7: "lookup_map demo 7 = Some \<lparr>m_value = 11, m_timeout = 5\<rparr>"
    and l8: "lookup_map demo 8 = Some \<lparr>m_value = 22, m_timeout = 100\<rparr>"
    by (simp_all add: demo_fields)
  from get_cases [of demo 3 10] l3 have "get demo 10 3 = (None, demo)" by simp
  moreover from get_cases [of demo 7 10] l7 have "get demo 10 7 = (None, demo)" by simp
  moreover from get_cases [of demo 8 10] l8 have "get demo 10 8 = (Some 22, demo)" by simp
  ultimately show ?thesis using l3 l7 l8 by simp
qed

text \<open>
  C4. Immediately after \<^verbatim>\<open>put(k, v, ttl)\<close> with \<open>ttl > 0\<close>, \<^verbatim>\<open>get(k)\<close> is to return \<open>v\<close>,
  for every 64-bit \<open>ttl\<close>. The deadline is \<^verbatim>\<open>get_time_ms() + ms\<close> in \<^verbatim>\<open>uint64_t\<close>, which
  wraps around: at clock reading 1, a ttl of \<open>2^64 - 1\<close> gives the deadline 0, and the
  \<^verbatim>\<open>get\<close> at the same clock reading answers not-found.
\<close>

theorem put_get_overflow:
  "fst (get (put (expire_map_init :: (nat, nat) expire_map) 1 7 42 18446744073709551615) 1 7) = None"
  by (simp add: get_def lookup_put word_le_nat_alt)

text \<open>
  X2. Where the addition of clock reading and ttl does not wrap around and the ttl is not 0,
  \<^verbatim>\<open>get\<close> at the clock reading of the \<^verbatim>\<open>put\<close> finds the entry, and leaves the state as
  it is.
\<close>

lemma put_get_no_overflow:
  assumes "0 < ms" and "unat now + unat ms < 2 ^ 64"
  shows "get (put s now k v ms) now k = (Some v, put s now k v ms)"
proof -
  have "unat (now + ms) = unat now + unat ms"
    using assms(2) unat_add_lem [of now ms] by simp
  moreover have "0 < unat ms" using assms(1) by (simp add: unat_gt_0)
  ultimately have "now < now + ms" by (simp add: word_less_nat_alt)
  then show ?thesis by (simp add: get_def lookup_put)
qed

theorem put_get_no_overflow_witness:
  "(0 :: time_ms) < 1000 \<and> unat (5 :: time_ms) + unat (1000 :: time_ms) < 2 ^ 64 \<and>
   get (put (expire_map_init :: (nat, nat) expire_map) 5 7 42 1000) 5 7 =
     (Some 42, put expire_map_init 5 7 42 1000)"
proof -
  have h1: "(0 :: time_ms) < 1000" by simp
  have h2: "unat (5 :: time_ms) + unat (1000 :: time_ms) < 2 ^ 64" by simp
  from put_get_no_overflow [OF h1 h2, of "expire_map_init :: (nat, nat) expire_map" 7 42] h1 h2
  show ?thesis by simp
qed

section \<open>The index at quiescent points\<close>

text \<open>
  C2. At every quiescent point the deadline index is exactly the deadline-to-keys relation
  of the entry table. For every state \<open>s\<close> that a run reaches from the constructor's
  state: if the pending log of \<open>s\<close> is empty, the index matches the table; the merge of the
  reclaimer succeeds on \<open>s\<close>, empties the log, leaves the table as it is and ends in an
  index that matches the table; and a whole round of the reclaimer at any clock reading
  succeeds and ends with an empty log and an index that matches the table.
\<close>

theorem quiescent_index_matches_table:
  assumes "run evs expire_map_init = Inr s"
  shows "(append_timeouts s = [] \<longrightarrow> index_matches_table (sorted_timeouts s) (lookup_map s)) \<and>
         (\<exists>s1. populate_sorted_timeouts s = Inr s1 \<and> append_timeouts s1 = [] \<and>
            lookup_map s1 = lookup_map s \<and>
            index_matches_table (sorted_timeouts s1) (lookup_map s1)) \<and>
         (\<forall>now. \<exists>out s'. reclaim_round now s = Inr (out, s') \<and> append_timeouts s' = [] \<and>
            index_matches_table (sorted_timeouts s') (lookup_map s'))"
proof -
  from assms have c: "consistent s" by (rule reachable_consistent)
  have "index_matches_table (sorted_timeouts s) (lookup_map s)" if "append_timeouts s = []"
    using consistent_quiescent [OF c that] by (rule index_exact_matches)
  moreover from populate_consistent [OF c] obtain idx
    where pop: "populate_sorted_timeouts s = Inr (s\<lparr>sorted_timeouts := idx, append_timeouts := []\<rparr>)"
      and "index_exact idx (lookup_map s)" by blast
  then have "\<exists>s1. populate_sorted_timeouts s = Inr s1 \<and> append_timeouts s1 = [] \<and>
            lookup_map s1 = lookup_map s \<and>
            index_matches_table (sorted_timeouts s1) (lookup_map s1)"
    by (intro exI [of _ "s\<lparr>sorted_timeouts := idx, append_timeouts := []\<rparr>"])
      (simp add: index_exact_matches)
  moreover have "\<exists>out s'. reclaim_round now s = Inr (out, s') \<and> append_timeouts s' = [] \<and>
            index_matches_table (sorted_timeouts s') (lookup_map s')" for now
  proof -
    from reclaim_round_exact [OF c, of now] obtain out s'
      where "reclaim_round now s = Inr (out, s')" and "append_timeouts s' = []"
        and "index_exact (sorted_timeouts s') (lookup_map s')"
      by blast
    then show ?thesis by (auto intro: index_exact_matches)
  qed
  ultimately show ?thesis by simp
qed

theorem quiescent_index_matches_table_witness:
  "run demo_events expire_map_init = Inr demo_swept \<and> append_timeouts demo_swept = [] \<and>
   index_matches_table (sorted_timeouts demo_swept) (lookup_map demo_swept)"
  using quiescent_index_matches_table [OF demo_run] demo_run
  by (simp add: demo_swept_def)

section \<open>The reclaiming round\<close>

lemma demo_puts_run: "run demo_puts expire_map_init = Inr demo"
  by (simp add: demo_puts_def demo_def)

lemma unexpired_not_evicted:
  assumes ex: "index_exact idx m" and k: "m k = Some e" and live: "now < m_timeout e"
    and due: "\<forall>(t, ks)\<in>set (take j idx). t \<le> now"
  shows "k \<notin> \<Union>(snd ` set (take j idx))"
proof
  assume "k \<in> \<Union>(snd ` set (take j idx))"
  then obtain t ks where b: "(t, ks) \<in> set (take j idx)" and mem: "k \<in> ks" by auto
  from b due have "t \<le> now" by auto
  from b have "(t, ks) \<in> set idx" by (rule in_set_takeD)
  moreover from ex have asc: "strictly_ascending idx"
    by (simp add: index_exact_def well_formed_def)
  ultimately have "in_bucket idx t k" using mem in_bucket_iff_mem [OF asc] by blast
  with ex k have "m_timeout e = t" by (auto simp: index_exact_def)
  with \<open>t \<le> now\<close> live show False by simp
qed

text \<open>
  C7. One round of the reclaimer, from any state a run reaches and at any clock reading
  \<open>now\<close>: the merge succeeds and leaves an index in strictly ascending order of deadline;
  the round removes the first \<open>j\<close> buckets of that order and nothing else, with
  \<open>j \<le> MAX_RECLAIM_ENTRIES = 10\<close>; every removed bucket has a deadline \<open>\<le> now\<close>; when
  fewer than 10 buckets are removed, every bucket that is left has its deadline after \<open>now\<close>
  (the loop stopped at the first such bucket, or at the end); the entry table loses the keys
  of the removed buckets and nothing else; and every entry whose deadline is after \<open>now\<close>
  is still in the table, unchanged.
\<close>

theorem reclaim_round_bounded:
  assumes "run evs expire_map_init = Inr s"
  shows "\<exists>s1 out s' j.
           populate_sorted_timeouts s = Inr s1 \<and> reclaim_round now s = Inr (out, s')
           \<and> strictly_ascending (sorted_timeouts s1)
           \<and> j \<le> MAX_RECLAIM_ENTRIES \<and> MAX_RECLAIM_ENTRIES = 10
           \<and> sorted_timeouts s' = drop j (sorted_timeouts s1)
           \<and> (\<forall>(t, ks)\<in>set (take j (sorted_timeouts s1)). t \<le> now)
           \<and> (j < MAX_RECLAIM_ENTRIES \<longrightarrow> (\<forall>(t, ks)\<in>set (sorted_timeouts s'). now < t))
           \<and> lookup_map s' = (\<lambda>key. if key \<in> \<Union>(snd ` set (take j (sorted_timeouts s1))) then None
                                      else lookup_map s key)
           \<and> (\<forall>k e. lookup_map s k = Some e \<and> now < m_timeout e \<longrightarrow> lookup_map s' k = Some e)"
proof -
  from assms have c: "consistent s" by (rule reachable_consistent)
  from reclaim_round_exact [OF c, of now] obtain idx out s' j
    where pop: "populate_sorted_timeouts s = Inr (s\<lparr>sorted_timeouts := idx, append_timeouts := []\<rparr>)"
      and ex: "index_exact idx (lookup_map s)"
      and round: "reclaim_round now s = Inr (out, s')"
      and bound: "j \<le> MAX_RECLAIM_ENTRIES"
      and index: "sorted_timeouts s' = drop j idx"
      and table: "lookup_map s' = (\<lambda>key. if key \<in> \<Union>(snd ` set (take j idx)) then None
                                      else lookup_map s key)"
      and due: "\<forall>(t, ks)\<in>set (take j idx). t \<le> now"
      and stop: "j < MAX_RECLAIM_ENTRIES \<longrightarrow> (\<forall>(t, ks)\<in>set (drop j idx). now < t)"
    by blast
  let ?s1 = "s\<lparr>sorted_timeouts := idx, append_timeouts := []\<rparr>"
  have live: "lookup_map s' k = Some e" if "lookup_map s k = Some e" "now < m_timeout e" for k e
    using unexpired_not_evicted [OF ex that due] that(1) by (simp add: table)
  show ?thesis
  proof (rule exI [of _ ?s1], rule exI [of _ out], rule exI [of _ s'], rule exI [of _ j],
      intro conjI)
    show "strictly_ascending (sorted_timeouts ?s1)"
      using ex by (simp add: index_exact_def well_formed_def)
    show "\<forall>k e. lookup_map s k = Some e \<and> now < m_timeout e \<longrightarrow> lookup_map s' k = Some e"
      using live by blast
    show "j < MAX_RECLAIM_ENTRIES \<longrightarrow> (\<forall>(t, ks)\<in>set (sorted_timeouts s'). now < t)"
      using stop by (simp add: index)
    show "j \<le> MAX_RECLAIM_ENTRIES" by (rule bound)
  qed (simp_all add: pop round index table due MAX_RECLAIM_ENTRIES_def)
qed

theorem reclaim_round_bounded_witness:
  "run demo_puts expire_map_init = Inr demo \<and>
   populate_sorted_timeouts demo =
     Inr (demo\<lparr>sorted_timeouts := [(5, {7}), (100, {8})], append_timeouts := []\<rparr>) \<and>
   reclaim_round 10 demo = Inr (Reclaimed, demo_swept) \<and>
   (\<exists>s1 out s' j.
           populate_sorted_timeouts demo = Inr s1 \<and> reclaim_round 10 demo = Inr (out, s')
           \<and> strictly_ascending (sorted_timeouts s1)
           \<and> j \<le> MAX_RECLAIM_ENTRIES \<and> MAX_RECLAIM_ENTRIES = 10
           \<and> sorted_timeouts s' = drop j (sorted_timeouts s1)
           \<and> (\<forall>(t, ks)\<in>set (take j (sorted_timeouts s1)). t \<le> 10)
           \<and> (j < MAX_RECLAIM_ENTRIES \<longrightarrow> (\<forall>(t, ks)\<in>set (sorted_timeouts s'). 10 < t))
           \<and> lookup_map s' = (\<lambda>key. if key \<in> \<Union>(snd ` set (take j (sorted_timeouts s1))) then None
                                      else lookup_map demo key)
           \<and> (\<forall>k e. lookup_map demo k = Some e \<and> 10 < m_timeout e \<longrightarrow> lookup_map s' k = Some e))"
  using reclaim_round_bounded [OF demo_puts_run, of 10] demo_puts_run demo_populate demo_round
  by simp

lemma strictly_ascending_distinct: "strictly_ascending idx \<Longrightarrow> distinct idx"
proof (induction idx)
  case Nil
  then show ?case by simp
next
  case (Cons b rest)
  obtain t ks where b: "b = (t, ks)" by (cases b)
  with Cons show ?case by (force simp: strictly_ascending_Cons)
qed

lemma nth_not_in_take:
  assumes "distinct xs" and "i < length xs"
  shows "xs ! i \<notin> set (take i xs)"
proof
  assume "xs ! i \<in> set (take i xs)"
  then obtain j where j: "j < length (take i xs)" and eq: "take i xs ! j = xs ! i"
    by (auto simp: in_set_conv_nth)
  from j assms(2) have "j < i" and "j < length xs" by simp_all
  with eq have "xs ! j = xs ! i" by simp
  with assms \<open>j < length xs\<close> have "j = i" by (simp add: nth_eq_iff_index_eq)
  with \<open>j < i\<close> show False by simp
qed

text \<open>
  C6. In every state a run reaches, the deletions of the reclaiming loop find their keys.
  After the merge every key of every bucket is in the entry table and no key is in two
  buckets; so each key of the \<open>i\<close>-th bucket is in none of the buckets before it and is
  still in the table when the loop, having erased the keys of those buckets, comes to it.
  The loop over the buckets returns without a failed assertion, and so does the whole round,
  at any clock reading.
\<close>

theorem eviction_keys_present:
  assumes "run evs expire_map_init = Inr s"
  shows "\<exists>s1 out s' idx m.
           populate_sorted_timeouts s = Inr s1
           \<and> (\<forall>b\<in>set (sorted_timeouts s1). \<forall>key\<in>snd b. lookup_map s1 key \<noteq> None)
           \<and> (\<forall>b\<in>set (sorted_timeouts s1). \<forall>b'\<in>set (sorted_timeouts s1).
                 b \<noteq> b' \<longrightarrow> snd b \<inter> snd b' = {})
           \<and> (\<forall>i<length (sorted_timeouts s1). \<forall>key\<in>snd (sorted_timeouts s1 ! i).
                 key \<notin> \<Union>(snd ` set (take i (sorted_timeouts s1))) \<and> lookup_map s1 key \<noteq> None)
           \<and> reclaim_loop now 0 (sorted_timeouts s1) (lookup_map s1) = Inr (idx, m)
           \<and> reclaim_round now s = Inr (out, s')"
proof -
  from assms have c: "consistent s" by (rule reachable_consistent)
  from reclaim_round_exact [OF c, of now] obtain idx0 out s'
    where pop: "populate_sorted_timeouts s = Inr (s\<lparr>sorted_timeouts := idx0, append_timeouts := []\<rparr>)"
      and ex: "index_exact idx0 (lookup_map s)"
      and round: "reclaim_round now s = Inr (out, s')"
    by blast
  let ?s1 = "s\<lparr>sorted_timeouts := idx0, append_timeouts := []\<rparr>"
  from ex have mt: "index_matches_table idx0 (lookup_map s)" by (rule index_exact_matches)
  from ex have dist: "distinct idx0"
    by (simp add: index_exact_def well_formed_def strictly_ascending_distinct)
  have present: "lookup_map s key \<noteq> None" if "b \<in> set idx0" "key \<in> snd b" for b key
    using mt that by (simp add: index_matches_table_def)
  have disjoint: "snd b \<inter> snd b' = {}" if "b \<in> set idx0" "b' \<in> set idx0" "b \<noteq> b'" for b b'
  proof (rule ccontr)
    assume "snd b \<inter> snd b' \<noteq> {}"
    then obtain key where key: "key \<in> snd b" "key \<in> snd b'" by blast
    with present [OF that(1)] obtain e where "lookup_map s key = Some e" by blast
    with mt have "\<exists>!b. b \<in> set idx0 \<and> key \<in> snd b" by (simp add: index_matches_table_def)
    with key that show False by blast
  qed
  have still: "key \<notin> \<Union>(snd ` set (take i idx0))" if "i < length idx0" "key \<in> snd (idx0 ! i)" for i key
  proof
    assume "key \<in> \<Union>(snd ` set (take i idx0))"
    then obtain b' where b': "b' \<in> set (take i idx0)" "key \<in> snd b'" by auto
    from b'(1) have in': "b' \<in> set idx0" by (rule in_set_takeD)
    from that(1) have in0: "idx0 ! i \<in> set idx0" by simp
    from nth_not_in_take [OF dist that(1)] b'(1) have "idx0 ! i \<noteq> b'" by auto
    from disjoint [OF in0 in' this] that(2) b'(2) show False by auto
  qed
  from reclaim_loop_exact [OF ex, of now 0] obtain idx m
    where loop: "reclaim_loop now 0 idx0 (lookup_map s) = Inr (idx, m)" by blast
  show ?thesis
  proof (rule exI [of _ ?s1], rule exI [of _ out], rule exI [of _ s'], rule exI [of _ idx],
      rule exI [of _ m], intro conjI)
    show "\<forall>b\<in>set (sorted_timeouts ?s1). \<forall>key\<in>snd b. lookup_map ?s1 key \<noteq> None"
      using present by simp
    show "\<forall>b\<in>set (sorted_timeouts ?s1). \<forall>b'\<in>set (sorted_timeouts ?s1).
            b \<noteq> b' \<longrightarrow> snd b \<inter> snd b' = {}"
      using disjoint by simp
    show "\<forall>i<length (sorted_timeouts ?s1). \<forall>key\<in>snd (sorted_timeouts ?s1 ! i).
            key \<notin> \<Union>(snd ` set (take i (sorted_timeouts ?s1))) \<and> lookup_map ?s1 key \<noteq> None"
    proof (intro allI impI ballI conjI)
      fix i key
      assume i: "i < length (sorted_timeouts ?s1)" and key: "key \<in> snd (sorted_timeouts ?s1 ! i)"
      from i key have "key \<notin> \<Union>(snd ` set (take i idx0))"
        using still [of i key] by simp
      then show "key \<notin> \<Union>(snd ` set (take i (sorted_timeouts ?s1)))"
        by simp
      from i key show "lookup_map ?s1 key \<noteq> None"
        using present [of "idx0 ! i" key] by simp
    qed
  qed (simp_all add: pop round loop)
qed

theorem eviction_keys_present_witness:
  "run demo_puts expire_map_init = Inr demo \<and>
   reclaim_round 10 demo = Inr (Reclaimed, demo_swept) \<and>
   (\<exists>s1 out s' idx m.
           populate_sorted_timeouts demo = Inr s1
           \<and> (\<forall>b\<in>set (sorted_timeouts s1). \<forall>key\<in>snd b. lookup_map s1 key \<noteq> None)
           \<and> (\<forall>b\<in>set (sorted_timeouts s1). \<forall>b'\<in>set (sorted_timeouts s1).
                 b \<noteq> b' \<longrightarrow> snd b \<inter> snd b' = {})
           \<and> (\<forall>i<length (sorted_timeouts s1). \<forall>key\<in>snd (sorted_timeouts s1 ! i).
                 key \<notin> \<Union>(snd ` set (take i (sorted_timeouts s1))) \<and> lookup_map s1 key \<noteq> None)
           \<and> reclaim_loop 10 0 (sorted_timeouts s1) (lookup_map s1) = Inr (idx, m)
           \<and> reclaim_round 10 demo = Inr (out, s'))"
  using eviction_keys_present [OF demo_puts_run, of 10] demo_puts_run demo_round
  by simp

section \<open>Overwriting an entry\<close>

lemma wrap_numeral: "(18446744073709551616 :: time_ms) = 0"
  by (simp add: word_unat_eq_iff)

lemma demo_wrapped_fields:
  "append_timeouts demo_wrapped =
     [\<lparr>t_key = 7, t_timeout = 5, t_overwrite = False\<rparr>,
      \<lparr>t_key = 7, t_timeout = 5, t_overwrite = True\<rparr>,
      \<lparr>t_key = 7, t_timeout = 0, t_overwrite = False\<rparr>]"
  "sorted_timeouts demo_wrapped = []"
  "lookup_map demo_wrapped = [7 \<mapsto> \<lparr>m_value = 22, m_timeout = 0\<rparr>]"
  "shutdown demo_wrapped = False"
  unfolding demo_wrapped_def
  by (simp_all add: put_def remove_internal_def expire_map_init_def lookup_insert_def Let_def
      wrap_numeral)

lemma demo_wrapped_populate:
  "populate_sorted_timeouts demo_wrapped =
     Inr (demo_wrapped\<lparr>sorted_timeouts := [(0, {7})], append_timeouts := []\<rparr>)"
  by (simp add: populate_sorted_timeouts_def demo_wrapped_fields populate_one_def)

text \<open>
  C1. After \<^verbatim>\<open>put(k, v1, t1)\<close> and then \<^verbatim>\<open>put(k, v2, t2)\<close> before the first deadline,
  \<^verbatim>\<open>get(k)\<close> is to return \<open>v2\<close> at any time before the second deadline, for every \<open>t2\<close>.
  On a fresh map: \<^verbatim>\<open>put(7, 11, 5)\<close> at clock reading 0, then \<^verbatim>\<open>put(7, 22, 2^64 - 1)\<close> at
  clock reading 1, before the first deadline 5. The second deadline is \<open>1 + (2^64 - 1)\<close>,
  which no clock reading reaches; computed in \<^verbatim>\<open>uint64_t\<close> it is 0. The table holds key 7
  with deadline 0, \<^verbatim>\<open>get(7)\<close> at clock reading 1 answers not-found, and the round of the
  reclaimer at clock reading 1 evicts the entry.
\<close>

theorem overwrite_wraps_around:
  "run [Put 0 7 11 5, Put 1 7 22 18446744073709551615] expire_map_init = Inr demo_wrapped \<and>
   lookup_map demo_wrapped 7 = Some \<lparr>m_value = 22, m_timeout = 0\<rparr> \<and>
   get demo_wrapped 1 7 = (None, demo_wrapped) \<and>
   (\<exists>s'. reclaim_round 1 demo_wrapped = Inr (Reclaimed, s') \<and> lookup_map s' 7 = None)"
proof (intro conjI)
  show "run [Put 0 7 11 5, Put 1 7 22 18446744073709551615] expire_map_init = Inr demo_wrapped"
    by (simp add: demo_wrapped_def)
  show "lookup_map demo_wrapped 7 = Some \<lparr>m_value = 22, m_timeout = 0\<rparr>"
    by (simp add: demo_wrapped_fields)
  show "get demo_wrapped 1 7 = (None, demo_wrapped)"
    by (simp add: get_def demo_wrapped_fields)
  show "\<exists>s'. reclaim_round 1 demo_wrapped = Inr (Reclaimed, s') \<and> lookup_map s' 7 = None"
    by (simp add: reclaim_round_def min_timeout_def demo_wrapped_populate erase_keys_def
        MAX_RECLAIM_ENTRIES_def demo_wrapped_fields)
qed

lemma round_keeps_live_entry:
  assumes c: "consistent s" and k: "lookup_map s k = Some e" and live: "now < m_timeout e"
  shows "\<exists>out s'. reclaim_round now s = Inr (out, s') \<and> consistent s' \<and> lookup_map s' k = Some e"
proof -
  from reclaim_round_exact [OF c, of now] obtain idx out s' j
    where ex: "index_exact idx (lookup_map s)"
      and round: "reclaim_round now s = Inr (out, s')"
      and log: "append_timeouts s' = []"
      and table: "lookup_map s' = (\<lambda>key. if key \<in> \<Union>(snd ` set (take j idx)) then None
                                      else lookup_map s key)"
      and due: "\<forall>(t, ks)\<in>set (take j idx). t \<le> now"
      and ex': "index_exact (sorted_timeouts s') (lookup_map s')"
    by blast
  from unexpired_not_evicted [OF ex k live due] k have "lookup_map s' k = Some e"
    by (simp add: table)
  moreover from log ex' have "consistent s'" by (rule index_exact_consistent)
  ultimately show ?thesis using round by blast
qed

lemma exec_spares:
  assumes c: "consistent s" and k: "lookup_map s k = Some e" and sp: "spares k (m_timeout e) ev"
  shows "\<exists>s'. exec ev s = Inr s' \<and> consistent s' \<and> lookup_map s' k = Some e"
proof (cases ev)
  case (Put now key val ms)
  with sp k show ?thesis by (simp add: consistent_put [OF c] lookup_put)
next
  case (Remove key)
  with sp k show ?thesis
    by (simp add: remove_def consistent_remove_internal [OF c] lookup_remove_internal)
next
  case (Get now key)
  with c k show ?thesis by (simp add: get_state)
next
  case (Round now)
  with sp have "now < m_timeout e" by simp
  from round_keeps_live_entry [OF c k this] Round show ?thesis by auto
next
  case Cleanup
  with c k show ?thesis by (simp add: consistent_cleanup) (simp add: cleanup_def)
qed

lemma entry_survives:
  assumes "consistent s" and "lookup_map s k = Some e" and "list_all (spares k (m_timeout e)) evs"
  shows "\<exists>s'. run evs s = Inr s' \<and> consistent s' \<and> lookup_map s' k = Some e"
  using assms
proof (induction evs arbitrary: s)
  case Nil
  then show ?case by simp
next
  case (Cons ev evs)
  from Cons.prems have "spares k (m_timeout e) ev" and rest: "list_all (spares k (m_timeout e)) evs"
    by simp_all
  from exec_spares [OF Cons.prems(1,2) this(1)] obtain s1
    where "exec ev s = Inr s1" and "consistent s1" and "lookup_map s1 k = Some e"
    by blast
  with Cons.IH [OF _ _ rest, of s1] show ?case by simp
qed

lemma put_log_overwrite:
  "lookup_map s k = Some e \<Longrightarrow>
   append_timeouts (put s now k v ms) =
     append_timeouts s @ [\<lparr>t_key = k, t_timeout = m_timeout e, t_overwrite = True\<rparr>,
                          \<lparr>t_key = k, t_timeout = now + ms, t_overwrite = False\<rparr>]"
  by (simp add: put_def remove_internal_def Let_def)

text \<open>
  X1. On the deadlines as \<^verbatim>\<open>put\<close> stores them (the sums in \<^verbatim>\<open>uint64_t\<close>). From any
  state a run reaches: \<^verbatim>\<open>put(k, v1, t1)\<close> at clock reading \<open>n1\<close>, then any events that
  spare the entry (rounds of the reclaimer only before the first stored deadline
  \<open>n1 + t1\<close>), then \<^verbatim>\<open>put(k, v2, t2)\<close> at clock reading \<open>n2\<close>. The second \<^verbatim>\<open>put\<close> appends
  to the log a removal record with the old deadline and then an insertion record with the
  new one, and the table holds \<open>k\<close> with \<open>v2\<close> and the deadline \<open>n2 + t2\<close>. Whatever follows
  that spares this entry (rounds of the reclaimer at any clock reading before \<open>n2 + t2\<close>,
  also after \<open>n1 + t1\<close>) fails no assertion and leaves the entry in the table, so that
  \<^verbatim>\<open>get(k)\<close> at any clock reading before \<open>n2 + t2\<close> returns \<open>v2\<close>; and after the next
  merge \<open>k\<close> is in the bucket of \<open>n2 + t2\<close> and in no other.
\<close>

theorem overwrite_one_entry:
  assumes reach: "run evs expire_map_init = Inr s"
    and mid: "list_all (spares k (n1 + t1)) between"
    and after: "list_all (spares k (n2 + t2)) later"
  shows "\<exists>s1 s2 s3 s4.
           run (Put n1 k v1 t1 # between) s = Inr s1
           \<and> s2 = put s1 n2 k v2 t2
           \<and> append_timeouts s2 =
               append_timeouts s1 @ [\<lparr>t_key = k, t_timeout = n1 + t1, t_overwrite = True\<rparr>,
                                     \<lparr>t_key = k, t_timeout = n2 + t2, t_overwrite = False\<rparr>]
           \<and> lookup_map s2 k = Some \<lparr>m_value = v2, m_timeout = n2 + t2\<rparr>
           \<and> run later s2 = Inr s3
           \<and> lookup_map s3 k = Some \<lparr>m_value = v2, m_timeout = n2 + t2\<rparr>
           \<and> (\<forall>now. now < n2 + t2 \<longrightarrow> get s3 now k = (Some v2, s3))
           \<and> populate_sorted_timeouts s3 = Inr s4
           \<and> (\<forall>t. in_bucket (sorted_timeouts s4) t k \<longleftrightarrow> t = n2 + t2)"
proof -
  let ?e1 = "\<lparr>m_value = v1, m_timeout = n1 + t1\<rparr>"
  let ?e2 = "\<lparr>m_value = v2, m_timeout = n2 + t2\<rparr>"
  from reach have "consistent s" by (rule reachable_consistent)
  then have c0: "consistent (put s n1 k v1 t1)" by (rule consistent_put)
  have l0: "lookup_map (put s n1 k v1 t1) k = Some ?e1" by (simp add: lookup_put)
  from entry_survives [OF c0 l0] mid obtain s1
    where r1: "run between (put s n1 k v1 t1) = Inr s1" and c1: "consistent s1"
      and l1: "lookup_map s1 k = Some ?e1"
    by auto
  let ?s2 = "put s1 n2 k v2 t2"
  from c1 have c2: "consistent ?s2" by (rule consistent_put)
  have l2: "lookup_map ?s2 k = Some ?e2" by (simp add: lookup_put)
  from entry_survives [OF c2 l2] after obtain s3
    where r3: "run later ?s2 = Inr s3" and c3: "consistent s3"
      and l3: "lookup_map s3 k = Some ?e2"
    by auto
  from populate_consistent [OF c3] obtain idx
    where pop: "populate_sorted_timeouts s3 = Inr (s3\<lparr>sorted_timeouts := idx, append_timeouts := []\<rparr>)"
      and ex: "index_exact idx (lookup_map s3)"
    by blast
  let ?s4 = "s3\<lparr>sorted_timeouts := idx, append_timeouts := []\<rparr>"
  show ?thesis
  proof (rule exI [of _ s1], rule exI [of _ ?s2], rule exI [of _ s3], rule exI [of _ ?s4],
      intro conjI)
    show "run (Put n1 k v1 t1 # between) s = Inr s1" using r1 by simp
    show "append_timeouts ?s2 =
            append_timeouts s1 @ [\<lparr>t_key = k, t_timeout = n1 + t1, t_overwrite = True\<rparr>,
                                  \<lparr>t_key = k, t_timeout = n2 + t2, t_overwrite = False\<rparr>]"
      using put_log_overwrite [OF l1] by simp
    show "\<forall>now. now < n2 + t2 \<longrightarrow> get s3 now k = (Some v2, s3)"
      using l3 by (auto simp: get_def)
    show "\<forall>t. in_bucket (sorted_timeouts ?s4) t k \<longleftrightarrow> t = n2 + t2"
      using ex l3 by (auto simp: index_exact_def)
  qed (simp_all add: l2 r3 l3 pop)
qed

theorem overwrite_one_entry_witness:
  "run [] (expire_map_init :: (nat, nat) expire_map) = Inr expire_map_init \<and>
   list_all (spares (7::nat) (0 + 5)) [Round 3 :: (nat, nat) event] \<and>
   list_all (spares (7::nat) (4 + 100)) [Round 50, Get 60 7 :: (nat, nat) event] \<and>
   (\<exists>s1 s2 s3 s4.
           run (Put 0 7 11 5 # [Round 3]) (expire_map_init :: (nat, nat) expire_map) = Inr s1
           \<and> s2 = put s1 4 7 22 100
           \<and> append_timeouts s2 =
               append_timeouts s1 @ [\<lparr>t_key = 7, t_timeout = 0 + 5, t_overwrite = True\<rparr>,
                                     \<lparr>t_key = 7, t_timeout = 4 + 100, t_overwrite = False\<rparr>]
           \<and> lookup_map s2 7 = Some \<lparr>m_value = 22, m_timeout = 4 + 100\<rparr>
           \<and> run [Round 50, Get 60 7] s2 = Inr s3
           \<and> lookup_map s3 7 = Some \<lparr>m_value = 22, m_timeout = 4 + 100\<rparr>
           \<and> (\<forall>now. now < 4 + 100 \<longrightarrow> get s3 now 7 = (Some 22, s3))
           \<and> populate_sorted_timeouts s3 = Inr s4
           \<and> (\<forall>t. in_bucket (sorted_timeouts s4) t 7 \<longleftrightarrow> t = 4 + 100))"
proof -
  have h1: "run [] (expire_map_init :: (nat, nat) expire_map) = Inr expire_map_init" by simp
  have h2: "list_all (spares (7::nat) (0 + 5)) [Round 3 :: (nat, nat) event]" by simp
  have h3: "list_all (spares (7::nat) (4 + 100)) [Round 50, Get 60 7 :: (nat, nat) event]" by simp
  from overwrite_one_entry [OF h1 h2 h3, of 11 22] h1 h2 h3 show ?thesis by blast
qed

section \<open>Expiry at the deadline\<close>

lemma head_bucket_evicted:
  assumes c: "consistent s"
    and pop: "populate_sorted_timeouts s = Inr s1"
    and head: "sorted_timeouts s1 = (now, ks) # rest"
  shows "\<exists>s'. reclaim_round now s = Inr (Reclaimed, s')
           \<and> find_bucket (sorted_timeouts s') now = None
           \<and> (\<forall>key\<in>ks. lookup_map s' key = None)"
proof -
  from populate_consistent [OF c] pop head
  have s1: "s1 = s\<lparr>sorted_timeouts := (now, ks) # rest, append_timeouts := []\<rparr>"
    and ex: "index_exact ((now, ks) # rest) (lookup_map s)"
    by auto
  let ?m1 = "\<lambda>key. if key \<in> ks then None else lookup_map s key"
  from exact_head [OF ex] have present: "\<forall>key\<in>ks. lookup_map s key \<noteq> None"
    and ex1: "index_exact rest ?m1"
    by simp_all
  from reclaim_loop_exact [OF ex1, of now 1] obtain j
    where loop: "reclaim_loop now 1 rest ?m1 =
        Inr (drop j rest, (\<lambda>key. if key \<in> \<Union>(snd ` set (take j rest)) then None else ?m1 key))"
    by blast
  let ?m' = "\<lambda>key. if key \<in> \<Union>(snd ` set (take j rest)) then None else ?m1 key"
  have "reclaim_loop now 0 ((now, ks) # rest) (lookup_map s) = Inr (drop j rest, ?m')"
    using present loop by (simp add: erase_keys_def MAX_RECLAIM_ENTRIES_def)
  with pop s1
  have round: "reclaim_round now s = Inr (Reclaimed, s1\<lparr>sorted_timeouts := drop j rest, lookup_map := ?m'\<rparr>)"
    by (simp add: reclaim_round_def min_timeout_def)
  from ex have "now \<notin> fst ` set rest"
    by (auto simp: index_exact_def well_formed_def strictly_ascending_Cons)
  then have "now \<notin> fst ` set (drop j rest)"
    by (auto dest: in_set_dropD)
  then have "find_bucket (drop j rest) now = None" by (rule find_bucket_None)
  with round show ?thesis by simp
qed

lemma reclaim_loop_shrinks:
  "reclaim_loop curr_ms n idx m = Inr (idx', m') \<Longrightarrow> m' k = None \<or> m' k = m k"
proof (induction idx arbitrary: n m)
  case Nil
  then show ?case by simp
next
  case (Cons b rest)
  obtain t ks where b: "b = (t, ks)" by (cases b)
  show ?case
  proof (cases "n < MAX_RECLAIM_ENTRIES \<and> t \<le> curr_ms")
    case True
    with Cons.prems b obtain m1 where e: "erase_keys ks m = Inr m1"
      and loop: "reclaim_loop curr_ms (n + 1) rest m1 = Inr (idx', m')"
      by (auto split: sum.splits)
    from e have "m1 k = None \<or> m1 k = m k"
      by (auto simp: erase_keys_def split: if_splits)
    with Cons.IH [OF loop] show ?thesis by auto
  next
    case False
    with Cons.prems b show ?thesis by (auto split: if_splits)
  qed
qed

lemma reclaim_round_shrinks:
  assumes "reclaim_round now s = Inr (out, s')"
  shows "lookup_map s' k = None \<or> lookup_map s' k = lookup_map s k"
proof -
  from assms obtain s1 where pop: "populate_sorted_timeouts s = Inr s1"
    by (auto simp: reclaim_round_def split: sum.splits)
  then have l1: "lookup_map s1 = lookup_map s"
    by (auto simp: populate_sorted_timeouts_def split: sum.splits)
  from assms pop l1 reclaim_loop_shrinks [of now 0 "sorted_timeouts s1" "lookup_map s1" _ _ k]
  show ?thesis
    by (auto simp: reclaim_round_def split: sum.splits if_splits)
qed

lemma exec_fades:
  assumes "exec ev s = Inr s'" and "\<not> puts k ev"
  shows "lookup_map s' k = None \<or> lookup_map s' k = lookup_map s k"
proof (cases ev)
  case (Put now key val ms)
  with assms show ?thesis by (auto simp: lookup_put)
next
  case (Remove key)
  with assms show ?thesis by (auto simp: remove_def lookup_remove_internal)
next
  case (Get now key)
  with assms show ?thesis by (auto simp: get_state)
next
  case (Round now)
  with assms obtain out where "reclaim_round now s = Inr (out, s')"
    by (auto split: sum.splits)
  then show ?thesis by (rule reclaim_round_shrinks)
next
  case Cleanup
  with assms show ?thesis by (auto simp: cleanup_def)
qed

lemma run_fades:
  assumes "run evs s = Inr s'" and "list_all (\<lambda>ev. \<not> puts k ev) evs"
  shows "lookup_map s' k = None \<or> lookup_map s' k = lookup_map s k"
  using assms
proof (induction evs arbitrary: s)
  case Nil
  then show ?case by simp
next
  case (Cons ev evs)
  from Cons.prems obtain s1 where e: "exec ev s = Inr s1" and r: "run evs s1 = Inr s'"
    by (auto split: sum.splits)
  from Cons.prems have "\<not> puts k ev" and rest: "list_all (\<lambda>ev. \<not> puts k ev) evs" by simp_all
  from exec_fades [OF e this(1)] Cons.IH [OF r rest] show ?case by auto
qed

lemma demo_zero_fields:
  "append_timeouts demo_zero = [\<lparr>t_key = 7, t_timeout = 10, t_overwrite = False\<rparr>]"
  "sorted_timeouts demo_zero = []"
  "lookup_map demo_zero = [7 \<mapsto> \<lparr>m_value = 11, m_timeout = 10\<rparr>]"
  by (simp_all add: demo_zero_def put_def remove_internal_def expire_map_init_def lookup_insert_def)

lemma demo_zero_populate:
  "populate_sorted_timeouts demo_zero =
     Inr (demo_zero\<lparr>sorted_timeouts := [(10, {7})], append_timeouts := []\<rparr>)"
  by (simp add: populate_sorted_timeouts_def demo_zero_fields populate_one_def)

text \<open>
  C10. Expiry is inclusive at the deadline. \<^verbatim>\<open>put(k, v, 0)\<close> at clock reading \<open>T\<close> stores
  the deadline \<open>T\<close>; after any later events that are no \<^verbatim>\<open>put\<close> of \<open>k\<close>, \<^verbatim>\<open>get(k)\<close> at
  any clock reading \<open>now \<ge> T\<close> answers not-found. In any state, an entry whose deadline
  equals the clock reading is not found. In a state a run reaches, when the first bucket
  after the merge has the deadline \<open>now\<close>, the round at \<open>now\<close> does not wait: it reclaims,
  the bucket is gone from the index and its keys are gone from the table.
\<close>

theorem expiry_inclusive:
  "(T \<le> now \<and> list_all (\<lambda>ev. \<not> puts k ev) later \<and> run later (put s T k v 0) = Inr s' \<longrightarrow>
      get s' now k = (None, s')) \<and>
   (\<forall>e. lookup_map s k = Some e \<and> m_timeout e = now \<longrightarrow> get s now k = (None, s)) \<and>
   (run evs expire_map_init = Inr s \<and> populate_sorted_timeouts s = Inr s1 \<and>
    sorted_timeouts s1 = (now, ks) # rest \<longrightarrow>
      (\<exists>s'. reclaim_round now s = Inr (Reclaimed, s')
         \<and> find_bucket (sorted_timeouts s') now = None
         \<and> (\<forall>key\<in>ks. lookup_map s' key = None)))"
proof (intro conjI allI impI)
  assume h: "T \<le> now \<and> list_all (\<lambda>ev. \<not> puts k ev) later \<and> run later (put s T k v 0) = Inr s'"
  then have "lookup_map s' k = None \<or> lookup_map s' k = lookup_map (put s T k v 0) k"
    using run_fades [of later "put s T k v 0" s' k] by simp
  with h show "get s' now k = (None, s')"
    by (auto simp: get_def lookup_put)
next
  fix e assume "lookup_map s k = Some e \<and> m_timeout e = now"
  then show "get s now k = (None, s)" by (simp add: get_def)
next
  assume h: "run evs expire_map_init = Inr s \<and> populate_sorted_timeouts s = Inr s1 \<and>
      sorted_timeouts s1 = (now, ks) # rest"
  then have "consistent s" by (blast intro: reachable_consistent)
  with h show "\<exists>s'. reclaim_round now s = Inr (Reclaimed, s')
         \<and> find_bucket (sorted_timeouts s') now = None
         \<and> (\<forall>key\<in>ks. lookup_map s' key = None)"
    by (simp add: head_bucket_evicted)
qed

theorem expiry_inclusive_witness:
  "(10 :: time_ms) \<le> 10 \<and> list_all (\<lambda>ev. \<not> puts (7 :: nat) ev) [Get 10 8 :: (nat, nat) event] \<and>
   run [Get 10 8] (put expire_map_init 10 7 11 0) = Inr demo_zero \<and>
   get demo_zero 10 7 = (None, demo_zero) \<and>
   lookup_map demo_zero 7 = Some \<lparr>m_value = 11, m_timeout = 10\<rparr> \<and>
   run [Put 10 7 11 0] expire_map_init = Inr demo_zero \<and>
   populate_sorted_timeouts demo_zero =
     Inr (demo_zero\<lparr>sorted_timeouts := [(10, {7})], append_timeouts := []\<rparr>) \<and>
   (\<exists>s'. reclaim_round 10 demo_zero = Inr (Reclaimed, s')
      \<and> find_bucket (sorted_timeouts s') 10 = None \<and> lookup_map s' 7 = None)"
proof -
  have run: "run [Put 10 7 11 0] expire_map_init = Inr demo_zero"
    by (simp add: demo_zero_def)
  have later: "run [Get 10 8] (put expire_map_init 10 7 11 0) = Inr demo_zero"
    by (simp add: demo_zero_def get_state)
  have l: "lookup_map demo_zero 7 = Some \<lparr>m_value = 11, m_timeout = 10\<rparr>"
    by (simp add: demo_zero_fields)
  from expiry_inclusive [where T = 10 and now = 10 and k = 7 and v = 11
      and s = "expire_map_init :: (nat, nat) expire_map" and later = "[Get 10 8]"
      and s' = demo_zero] later
  have "get demo_zero 10 7 = (None, demo_zero)" by simp
  moreover
  from expiry_inclusive [where now = 10 and s = demo_zero and evs = "[Put 10 7 11 0]"
      and ?s1.0 = "demo_zero\<lparr>sorted_timeouts := [(10, {7})], append_timeouts := []\<rparr>"
      and ks = "{7}" and rest = "[]"]
    run demo_zero_populate
  have "\<exists>s'. reclaim_round 10 demo_zero = Inr (Reclaimed, s')
      \<and> find_bucket (sorted_timeouts s') 10 = None \<and> lookup_map s' 7 = None"
    by simp
  ultimately show ?thesis using run later l demo_zero_populate by simp
qed

section \<open>Removal records in the merge\<close>







section \<open>When the reclaimer stops\<close>

















text \<open>
  The loop counts the buckets it has removed: with nine removed before, it removes one more
  due bucket and leaves the next one, due as it is.
\<close>

lemma reclaim_loop_cap:
  "reclaim_loop 10 9 [(1, {7 :: nat}), (2, {8})]
     [7 \<mapsto> \<lparr>m_value = 11 :: nat, m_timeout = 1\<rparr>, 8 \<mapsto> \<lparr>m_value = 22, m_timeout = 2\<rparr>]
   = Inr ([(2, {8})], [8 \<mapsto> \<lparr>m_value = 22, m_timeout = 2\<rparr>])"
  by (simp add: MAX_RECLAIM_ENTRIES_def erase_keys_def fun_eq_iff)

end
